theory Spec2Isabelle
  imports Main "HOL-Library.Sublist"
begin

section \<open>Strings and the regular-expression steps of \<open>collect_emails.py\<close>\<close>

text \<open>
  A Python \<open>str\<close> is a sequence of Unicode code points; \<open>len\<close> counts code points.
  It is modelled as a list of naturals.  \<open>py\<close> turns an ASCII literal into such a list.
\<close>

type_synonym pystr = "nat list"

definition py :: "string \<Rightarrow> pystr" where
  "py s = map of_char s"

text \<open>
  The characters for which \<open>str.isspace\<close> holds; the class \<open>\s\<close> of \<open>re\<close> on a
  \<open>str\<close> pattern is the same set, and \<open>str.strip()\<close> removes exactly these.
\<close>

definition is_space :: "nat \<Rightarrow> bool" where
  "is_space c \<longleftrightarrow>
     (9 \<le> c \<and> c \<le> 13) \<or> (28 \<le> c \<and> c \<le> 32) \<or> c = 133 \<or> c = 160 \<or> c = 5760 \<or>
     (8192 \<le> c \<and> c \<le> 8202) \<or> c = 8232 \<or> c = 8233 \<or> c = 8239 \<or> c = 8287 \<or> c = 12288"

definition strip :: "pystr \<Rightarrow> pystr" where
  "strip s = rev (dropWhile is_space (rev (dropWhile is_space s)))"

text \<open>
  \<open>re.sub(pattern, repl, text)\<close> for a pattern that cannot match the empty string,
  as is the case for all six patterns of \<open>chunk_text\<close>:
  the text is scanned from the left; \<open>m\<close> gives the length of the match that starts at
  the head of the remaining text, \<open>0\<close> when the pattern does not match there.  A match
  is replaced by \<open>repl\<close> and the scan goes on behind it; otherwise one character is
  copied.
\<close>

function re_sub :: "(pystr \<Rightarrow> nat) \<Rightarrow> pystr \<Rightarrow> pystr \<Rightarrow> pystr" where
  "re_sub m repl [] = []"
| "re_sub m repl (c # cs) =
     (if m (c # cs) = 0 then c # re_sub m repl cs
      else repl @ re_sub m repl (drop (m (c # cs)) (c # cs)))"
  by pat_completeness auto
termination
  by (relation "measure (\<lambda>(m, repl, s). length s)") auto

text \<open>
  A greedy run \<open>X{k,}\<close> of one character class: the longest prefix of characters of the
  class, when it has at least \<open>k\<close> of them.
\<close>

definition m_run :: "(nat \<Rightarrow> bool) \<Rightarrow> nat \<Rightarrow> pystr \<Rightarrow> nat" where
  "m_run p k s = (let n = length (takeWhile p s) in if k \<le> n then n else 0)"

text \<open>
  \<open>\s*(?:>\s*){2,}\<close>.  Every piece of the pattern is greedy and consumes only whitespace
  and \<open>>\<close> (code 62); a shorter \<open>\s*\<close> would leave a whitespace character where the
  pattern wants \<open>>\<close>.  So the match is the longest prefix made of whitespace and \<open>>\<close>,
  and it exists when that prefix holds at least two \<open>>\<close>.
\<close>

definition m_quote :: "pystr \<Rightarrow> nat" where
  "m_quote s =
     (let p = takeWhile (\<lambda>c. is_space c \<or> c = 62) s
      in if 2 \<le> length (filter (\<lambda>c. c = 62) p) then length p else 0)"

text \<open>
  \<open>https?://\S+|www\.\S+\<close>.  \<open>url_tail\<close> is \<open>://\S+\<close>; the optional \<open>s\<close> is tried first
  and given back when the rest fails.
\<close>

definition nonspace_run :: "pystr \<Rightarrow> nat" where
  "nonspace_run s = length (takeWhile (\<lambda>c. \<not> is_space c) s)"

definition url_tail :: "pystr \<Rightarrow> nat" where
  "url_tail r =
     (if prefix (py ''://'') r \<and> 1 \<le> nonspace_run (drop 3 r)
      then 3 + nonspace_run (drop 3 r) else 0)"

definition m_url :: "pystr \<Rightarrow> nat" where
  "m_url s =
     (if prefix (py ''http'') s then
        (let r = drop 4 s in
         if prefix (py ''s'') r \<and> url_tail (drop 1 r) \<noteq> 0 then 5 + url_tail (drop 1 r)
         else if url_tail r \<noteq> 0 then 4 + url_tail r
         else 0)
      else if prefix (py ''www.'') s \<and> 1 \<le> nonspace_run (drop 4 s)
        then 4 + nonspace_run (drop 4 s)
      else 0)"

subsection \<open>\<open>chunk_text\<close>, lines 13 to 29: normalization\<close>

text \<open>
  One binding for each assignment of the source, in its order: line 15 drops what the
  ASCII codec cannot encode; line 18 replaces quote markers, lines 21 and 22 runs of
  three or more \<open>-\<close> (code 45) and \<open>_\<close> (code 95), line 23 runs of two or more
  whitespace characters, each by one space; line 26 deletes URLs; line 29 replaces
  every whitespace run by one space and strips the result.
\<close>

definition normalize :: "pystr \<Rightarrow> pystr" where
  "normalize text =
     (let text = filter (\<lambda>c. c < 128) text;
          text = re_sub m_quote (py '' '') text;
          text = re_sub (m_run (\<lambda>c. c = 45) 3) (py '' '') text;
          text = re_sub (m_run (\<lambda>c. c = 95) 3) (py '' '') text;
          text = re_sub (m_run is_space 2) (py '' '') text;
          text = re_sub m_url [] text
      in strip (re_sub (m_run is_space 1) (py '' '') text))"

subsection \<open>\<open>chunk_text\<close>, lines 32 to 45: sentence splitting and chunking\<close>

text \<open>
  \<open>re.split(r'(?<=[.!?]) +', text)\<close>: a separator is a maximal run of spaces (code 32)
  that follows one of \<open>.\<close> \<open>!\<close> \<open>?\<close> (codes 46, 33, 63).  The result always has at
  least one piece; the empty text gives one empty piece.  A character that does not end
  a piece is put in front of the first piece of the rest (which exists: the \<open>[]\<close> case
  of the \<open>case\<close> below is never taken).
\<close>

definition is_terminal :: "nat \<Rightarrow> bool" where
  "is_terminal c \<longleftrightarrow> c = 46 \<or> c = 33 \<or> c = 63"

function split_sentences :: "pystr \<Rightarrow> pystr list" where
  "split_sentences [] = [[]]"
| "split_sentences (c # cs) =
     (if is_terminal c \<and> cs \<noteq> [] \<and> hd cs = 32
      then [c] # split_sentences (dropWhile (\<lambda>x. x = 32) cs)
      else (case split_sentences cs of
              p # ps \<Rightarrow> (c # p) # ps
            | [] \<Rightarrow> [[c]]))"
  by pat_completeness auto
termination
  by (relation "measure length") (auto simp: length_dropWhile_le less_Suc_eq_le)

text \<open>
  The loop of lines 36 to 41, on the pair \<open>(chunks, current_chunk)\<close>.  \<open>max_length\<close> is
  a Python \<open>int\<close>, of any sign.
\<close>

fun chunk_loop :: "int \<Rightarrow> pystr list \<Rightarrow> pystr list \<times> pystr \<Rightarrow> pystr list \<times> pystr" where
  "chunk_loop max_length [] st = st"
| "chunk_loop max_length (sentence # rest) (chunks, current_chunk) =
     (if int (length current_chunk) + int (length sentence) + 1 < max_length
      then chunk_loop max_length rest (chunks, current_chunk @ strip (sentence @ py '' ''))
      else chunk_loop max_length rest (chunks @ [current_chunk], sentence @ py '' ''))"

definition chunk :: "pystr \<Rightarrow> int \<Rightarrow> pystr list" where
  "chunk text max_length =
     (let sentences = split_sentences text;
          (chunks, current_chunk) = chunk_loop max_length sentences ([], [])
      in if current_chunk \<noteq> [] then chunks @ [current_chunk] else chunks)"

definition chunk_text :: "pystr \<Rightarrow> int \<Rightarrow> pystr list" where
  "chunk_text text max_length = chunk (normalize text) max_length"

section \<open>Files, messages and the mailbox\<close>

text \<open>
  Exceptions are values.  \<open>ValueError\<close> of \<open>strptime\<close> is caught in \<open>main\<close> and does not
  appear here.  No function outside \<open>main\<close> has a handler, so an exception ends the run.
\<close>

datatype py_error =
    UnicodeDecodeError | UnicodeEncodeError | LookupError | TypeError | AttributeError
  | FileNotFoundError

type_synonym 'a result = "py_error + 'a"

text \<open>
  Bytes are naturals below 256.  A file holds the sequence written to it: the characters
  written in text mode (the vault) or the bytes written in binary mode (attachments).
  The vault is kept as the characters written to it; writing a character that UTF-8
  cannot encode raises \<open>UnicodeEncodeError\<close>.  The path of the vault is the operator's
  configuration: opening it succeeds for every path but the empty one.  The folder of
  the attachments is fixed by the program, which never creates it: whether a file can
  be opened for writing there is a parameter (\<open>can_open_wb\<close> below).  Other failures of
  the operating system are outside the model.  A function that raises returns the
  exception alone: the world it leaves behind is not modelled.
  \<open>print\<close> is recorded as a value of \<open>log\<close>, one constructor per message of the source.
\<close>

type_synonym bytes = "nat list"

datatype log =
    Vault_not_set | Username_not_set | Password_not_set | Ending_early
  | Date_format_incorrect | Both_dates_required
  | Using_criteria pystr pystr | Found_emails nat pystr | Downloading pystr pystr
  | Failed_fetch pystr pystr | Failed_search pystr | Saved_attachment pystr

datatype net_event =
    Connect pystr | Login "pystr option" "pystr option" | Select pystr
  | Search pystr | Fetch bytes | Logout

record world =
  files :: "pystr \<rightharpoonup> nat list"
  stdout :: "log list"
  network :: "net_event list"

text \<open>
  What \<open>email\<close> exposes of a message part: \<open>get_content_type()\<close>,
  \<open>get_content_charset()\<close>, \<open>get('Content-Disposition')\<close> and \<open>get_filename()\<close>.
  A leaf carries the bytes \<open>get_payload(decode=True)\<close> returns; for a part that
  \<open>is_multipart()\<close> that call returns \<open>None\<close>.
\<close>

record part =
  content_type :: pystr
  content_charset :: "pystr option"
  content_disposition :: "pystr option"
  filename :: "pystr option"

datatype message = Leaf part bytes | Multipart part "message list"

fun headers :: "message \<Rightarrow> part" where
  "headers (Leaf p b) = p"
| "headers (Multipart p ms) = p"

fun is_multipart :: "message \<Rightarrow> bool" where
  "is_multipart (Leaf p b) = False"
| "is_multipart (Multipart p ms) = True"

fun get_payload :: "message \<Rightarrow> bytes option" where
  "get_payload (Leaf p b) = Some b"
| "get_payload (Multipart p ms) = None"

fun walk :: "message \<Rightarrow> message list" where
  "walk (Leaf p b) = [Leaf p b]"
| "walk (Multipart p ms) = Multipart p ms # concat (map walk ms)"

definition get_content_maintype :: "message \<Rightarrow> pystr" where
  "get_content_maintype m = takeWhile (\<lambda>c. c \<noteq> 47) (content_type (headers m))"

text \<open>
  The library and the outside world, as parameters: \<open>bytes.decode(charset, errors=...)\<close>,
  \<open>BeautifulSoup(html, 'lxml').get_text()\<close>, the two parsers of \<open>email\<close>,
  \<open>datetime.strptime(s, "%d.%m.%Y").strftime("%d-%b-%Y")\<close> (\<open>None\<close> for \<open>ValueError\<close>),
  \<open>os.getenv\<close>, \<open>os.getcwd()\<close>, whether \<open>open(path, 'wb')\<close> succeeds (it raises
  \<open>FileNotFoundError\<close> when the directory of the path does not exist), and the answers
  of the IMAP server to \<open>search\<close> (status and the identifiers of \<open>data[0].split()\<close>)
  and to \<open>fetch\<close> (status and the raw message).
\<close>

datatype errors_mode = Strict | Ignore

record lib =
  decode :: "pystr \<Rightarrow> errors_mode \<Rightarrow> bytes \<Rightarrow> pystr result"
  html_get_text :: "pystr \<Rightarrow> pystr"
  parsebytes :: "bytes \<Rightarrow> message"
  message_from_bytes :: "bytes \<Rightarrow> message"
  reformat_date :: "pystr \<Rightarrow> pystr option"
  getenv :: "pystr \<rightharpoonup> pystr"
  getcwd :: pystr
  can_open_wb :: "pystr \<Rightarrow> bool"
  imap_search :: "pystr \<Rightarrow> pystr \<times> bytes list"
  imap_fetch :: "bytes \<Rightarrow> pystr \<times> bytes"

definition bind :: "'a result \<Rightarrow> ('a \<Rightarrow> 'b result) \<Rightarrow> 'b result" where
  "bind r f = (case r of Inl e \<Rightarrow> Inl e | Inr x \<Rightarrow> f x)"

subsection \<open>\<open>save_chunks_to_vault\<close>\<close>

text \<open>
  Opening in mode \<open>"a"\<close> creates a missing file; \<open>open(None, ...)\<close> raises \<open>TypeError\<close>
  and \<open>open("", ...)\<close> raises \<open>FileNotFoundError\<close>.  The file is opened with
  \<open>encoding="utf-8"\<close>: \<open>write\<close> raises \<open>UnicodeEncodeError\<close> for a surrogate (codes 55296
  to 57343), the only code points of a \<open>str\<close> that UTF-8 cannot encode.  A natural of
  1114112 or more is no code point of a \<open>str\<close> and counts as not encodable.
\<close>

definition utf8_encodable :: "nat \<Rightarrow> bool" where
  "utf8_encodable c \<longleftrightarrow> c < 55296 \<or> (57343 < c \<and> c < 1114112)"

definition vault_lines :: "pystr list \<Rightarrow> pystr" where
  "vault_lines chunks = concat (map (\<lambda>chunk. strip chunk @ [10]) chunks)"

definition old_content :: "world \<Rightarrow> pystr \<Rightarrow> nat list" where
  "old_content w path = (case files w path of None \<Rightarrow> [] | Some old \<Rightarrow> old)"

definition save_chunks_to_vault :: "lib \<Rightarrow> pystr list \<Rightarrow> world \<Rightarrow> world result" where
  "save_chunks_to_vault L chunks w =
     (case getenv L (py ''VAULT_FILENAME'') of
        None \<Rightarrow> Inl TypeError
      | Some vault_path \<Rightarrow>
          if vault_path = [] then Inl FileNotFoundError
          else if \<not> list_all utf8_encodable (vault_lines chunks) then Inl UnicodeEncodeError
          else Inr (w\<lparr>files := (files w)(vault_path \<mapsto>
                      old_content w vault_path @ vault_lines chunks)\<rparr>))"

subsection \<open>\<open>save_plain_text_content\<close>\<close>

definition get_text_from_html :: "lib \<Rightarrow> pystr \<Rightarrow> pystr" where
  "get_text_from_html L html_content = html_get_text L html_content"

text \<open>
  \<open>part.get_payload(decode=True).decode(part.get_content_charset('utf-8'), errors)\<close>;
  \<open>None.decode\<close> raises \<open>AttributeError\<close>.
\<close>

definition decode_payload :: "lib \<Rightarrow> errors_mode \<Rightarrow> message \<Rightarrow> pystr result" where
  "decode_payload L mode p =
     (case get_payload p of
        None \<Rightarrow> Inl AttributeError
      | Some b \<Rightarrow>
          decode L (case content_charset (headers p) of None \<Rightarrow> py ''utf-8'' | Some cs \<Rightarrow> cs) mode b)"

text \<open>The loop over \<open>msg.walk()\<close> of the multipart branch, lines 61 to 66.\<close>

fun extract_parts :: "lib \<Rightarrow> message list \<Rightarrow> pystr \<Rightarrow> pystr result" where
  "extract_parts L [] text_content = Inr text_content"
| "extract_parts L (p # ps) text_content =
     (if content_type (headers p) = py ''text/plain'' then
        bind (decode_payload L Ignore p) (\<lambda>t. extract_parts L ps (text_content @ t))
      else if content_type (headers p) = py ''text/html'' then
        bind (decode_payload L Ignore p)
          (\<lambda>html_content. extract_parts L ps (text_content @ get_text_from_html L html_content))
      else extract_parts L ps text_content)"

definition extract_text :: "lib \<Rightarrow> message \<Rightarrow> pystr result" where
  "extract_text L msg =
     (if is_multipart msg then extract_parts L (walk msg) []
      else if content_type (headers msg) = py ''text/plain'' then decode_payload L Strict msg
      else if content_type (headers msg) = py ''text/html'' then
        bind (decode_payload L Strict msg) (\<lambda>t. Inr (get_text_from_html L t))
      else Inr [])"

definition save_plain_text_content ::
  "lib \<Rightarrow> bytes \<Rightarrow> pystr \<Rightarrow> world \<Rightarrow> (pystr \<times> world) result" where
  "save_plain_text_content L email_bytes email_id w =
     bind (extract_text L (parsebytes L email_bytes)) (\<lambda>text_content.
     bind (save_chunks_to_vault L (chunk_text text_content 1000) w) (\<lambda>w'.
     Inr (text_content, w')))"

subsection \<open>\<open>save_attachment\<close>\<close>

text \<open>\<open>os.path.join\<close> of \<open>posixpath\<close>, for two components.\<close>

definition path_join :: "pystr \<Rightarrow> pystr \<Rightarrow> pystr" where
  "path_join a b =
     (if b \<noteq> [] \<and> hd b = 47 then b
      else if a = [] \<or> last a = 47 then a @ b
      else a @ [47] @ b)"

text \<open>
  Line 86 opens the file before line 87 reads the payload: a folder that is missing
  raises \<open>FileNotFoundError\<close> first; \<open>f.write(None)\<close> raises \<open>TypeError\<close>.
\<close>

definition save_attachment ::
  "lib \<Rightarrow> message \<Rightarrow> pystr \<Rightarrow> pystr \<Rightarrow> world \<Rightarrow> world result" where
  "save_attachment L p email_id folder_path w =
     (if get_content_maintype p = py ''multipart'' then Inr w
      else if content_disposition (headers p) = None then Inr w
      else (case filename (headers p) of
              None \<Rightarrow> Inr w
            | Some fname \<Rightarrow>
                if fname = [] then Inr w
                else (let filepath = path_join folder_path (email_id @ py ''_'' @ fname) in
                      if \<not> can_open_wb L filepath then Inl FileNotFoundError
                      else (case get_payload p of
                              None \<Rightarrow> Inl TypeError
                            | Some b \<Rightarrow>
                                Inr (w\<lparr>files := (files w)(filepath \<mapsto> b),
                                       stdout := stdout w @ [Saved_attachment filepath]\<rparr>)))))"

fun save_attachments ::
  "lib \<Rightarrow> message list \<Rightarrow> pystr \<Rightarrow> pystr \<Rightarrow> world \<Rightarrow> world result" where
  "save_attachments L [] email_id folder_path w = Inr w"
| "save_attachments L (p # ps) email_id folder_path w =
     bind (save_attachment L p email_id folder_path w) (save_attachments L ps email_id folder_path)"

subsection \<open>\<open>search_and_process_emails\<close>\<close>

definition truthy :: "pystr option \<Rightarrow> bool" where
  "truthy v = (case v of None \<Rightarrow> False | Some s \<Rightarrow> s \<noteq> [])"

definition the_str :: "pystr option \<Rightarrow> pystr" where
  "the_str v = (case v of None \<Rightarrow> [] | Some s \<Rightarrow> s)"

definition search_criteria :: "pystr \<Rightarrow> pystr option \<Rightarrow> pystr option \<Rightarrow> pystr" where
  "search_criteria search_keyword start_date end_date =
     (if truthy start_date \<and> truthy end_date
      then py ''(SINCE \"'' @ the_str start_date @ py ''\" BEFORE \"'' @ the_str end_date @ py ''\")''
      else py ''ALL'')
     @ (if search_keyword \<noteq> [] then py '' BODY \"'' @ search_keyword @ py ''\"'' else [])"

fun process_ids :: "lib \<Rightarrow> pystr \<Rightarrow> bytes list \<Rightarrow> world \<Rightarrow> world result" where
  "process_ids L email_source [] w = Inr w"
| "process_ids L email_source (num # nums) w =
     (let (typ, raw) = imap_fetch L num;
          w1 = w\<lparr>network := network w @ [Fetch num]\<rparr>
      in bind (decode L (py ''utf-8'') Strict num) (\<lambda>email_id.
         if typ = py ''OK'' then
           bind (save_plain_text_content L raw email_id
                   (w1\<lparr>stdout := stdout w1 @ [Downloading email_id email_source]\<rparr>)) (\<lambda>(text_content, w2).
           bind (save_attachments L (walk (message_from_bytes L raw)) email_id
                   (path_join (getcwd L) (py ''attachments'')) w2) (\<lambda>w3.
           process_ids L email_source nums w3))
         else process_ids L email_source nums
                (w1\<lparr>stdout := stdout w1 @ [Failed_fetch email_id email_source]\<rparr>)))"

definition search_and_process_emails ::
  "lib \<Rightarrow> pystr \<Rightarrow> pystr \<Rightarrow> pystr option \<Rightarrow> pystr option \<Rightarrow> world \<Rightarrow> world result" where
  "search_and_process_emails L email_source search_keyword start_date end_date w =
     (let crit = search_criteria search_keyword start_date end_date;
          (typ, email_ids) = imap_search L crit;
          w1 = w\<lparr>stdout := stdout w @ [Using_criteria email_source crit],
                 network := network w @ [Search crit]\<rparr>
      in if typ = py ''OK''
         then process_ids L email_source email_ids
                (w1\<lparr>stdout := stdout w1 @ [Found_emails (length email_ids) email_source]\<rparr>)
         else Inr (w1\<lparr>stdout := stdout w1 @ [Failed_search email_source]\<rparr>))"

subsection \<open>\<open>check_env\<close> and \<open>main\<close>\<close>

text \<open>
  \<open>check_env\<close> returns \<open>None\<close> in its third branch, which \<open>main\<close> reads as false.
\<close>

definition check_env :: "lib \<Rightarrow> world \<Rightarrow> bool \<times> world" where
  "check_env L w =
     (if \<not> truthy (getenv L (py ''VAULT_FILENAME''))
        then (False, w\<lparr>stdout := stdout w @ [Vault_not_set]\<rparr>)
      else if \<not> truthy (getenv L (py ''GMAIL_USERNAME''))
        then (False, w\<lparr>stdout := stdout w @ [Username_not_set]\<rparr>)
      else if \<not> truthy (getenv L (py ''GMAIL_PASSWORD''))
        then (False, w\<lparr>stdout := stdout w @ [Password_not_set]\<rparr>)
      else (True, w))"

text \<open>The parsed command line: \<open>args.keyword\<close>, \<open>args.startdate\<close>, \<open>args.enddate\<close>.\<close>

record args =
  keyword :: pystr
  startdate :: "pystr option"
  enddate :: "pystr option"

definition run_session :: "lib \<Rightarrow> args \<Rightarrow> pystr option \<Rightarrow> pystr option \<Rightarrow> world \<Rightarrow> world result" where
  "run_session L a start_date end_date w =
     (let w1 = w\<lparr>network := network w @
                  [Connect (py ''imap.gmail.com''),
                   Login (getenv L (py ''GMAIL_USERNAME'')) (getenv L (py ''GMAIL_PASSWORD'')),
                   Select (py ''inbox'')]\<rparr>
      in bind (search_and_process_emails L (py ''Gmail'') (keyword a) start_date end_date w1)
           (\<lambda>w2. Inr (w2\<lparr>network := network w2 @ [Logout]\<rparr>)))"

definition main :: "lib \<Rightarrow> args \<Rightarrow> world \<Rightarrow> world result" where
  "main L a w =
     (let (ok, w0) = check_env L w in
      if ok then
        if truthy (startdate a) \<and> truthy (enddate a) then
          (case reformat_date L (the_str (startdate a)) of
             None \<Rightarrow> Inr (w0\<lparr>stdout := stdout w0 @ [Date_format_incorrect]\<rparr>)
           | Some start_date \<Rightarrow>
               (case reformat_date L (the_str (enddate a)) of
                  None \<Rightarrow> Inr (w0\<lparr>stdout := stdout w0 @ [Date_format_incorrect]\<rparr>)
                | Some end_date \<Rightarrow> run_session L a (Some start_date) (Some end_date) w0))
        else if truthy (startdate a) \<or> truthy (enddate a) then
          Inr (w0\<lparr>stdout := stdout w0 @ [Both_dates_required]\<rparr>)
        else run_session L a None None w0
      else Inr (w0\<lparr>stdout := stdout w0 @ [Ending_early]\<rparr>))"

subsection \<open>The lines of a text file\<close>

text \<open>
  A file read back line by line: each newline (code 10) ends a line; what follows the
  last newline is a line of its own when it is not empty.
\<close>

fun lines_from :: "pystr \<Rightarrow> pystr \<Rightarrow> pystr list" where
  "lines_from cur [] = (if cur = [] then [] else [cur])"
| "lines_from cur (c # cs) = (if c = 10 then cur # lines_from [] cs else lines_from (cur @ [c]) cs)"

definition file_lines :: "pystr \<Rightarrow> pystr list" where
  "file_lines s = lines_from [] s"

subsection \<open>A codec, an environment and a mailbox for concrete runs\<close>

text \<open>
  In the example environment the only folder in which a file can be created is
  \<open>/home/user/attachments\<close>.
\<close>

text \<open>
  \<open>bytes.decode\<close> with the ASCII codec only: a byte of 128 or more raises
  \<open>UnicodeDecodeError\<close> under \<open>errors='strict'\<close> and is dropped under \<open>errors='ignore'\<close>;
  any other charset name is unknown to this registry.
\<close>

definition ascii_decode :: "pystr \<Rightarrow> errors_mode \<Rightarrow> bytes \<Rightarrow> pystr result" where
  "ascii_decode charset mode b =
     (if charset = py ''ascii'' \<or> charset = py ''us-ascii'' then
        (case mode of
           Strict \<Rightarrow> if list_all (\<lambda>x. x < 128) b then Inr b else Inl UnicodeDecodeError
         | Ignore \<Rightarrow> Inr (filter (\<lambda>x. x < 128) b))
      else Inl LookupError)"

definition plain_part :: part where
  "plain_part = \<lparr>content_type = py ''text/plain'', content_charset = Some (py ''us-ascii''),
                 content_disposition = None, filename = None\<rparr>"

definition mixed_part :: part where
  "mixed_part = \<lparr>content_type = py ''multipart/mixed'', content_charset = None,
                 content_disposition = None, filename = None\<rparr>"

definition pdf_part :: "pystr option \<Rightarrow> part" where
  "pdf_part disposition = \<lparr>content_type = py ''application/pdf'', content_charset = None,
                 content_disposition = disposition, filename = Some (py ''a.pdf'')\<rparr>"

definition example_env :: "pystr \<rightharpoonup> pystr" where
  "example_env = [py ''VAULT_FILENAME'' \<mapsto> py ''vault.txt'',
                  py ''GMAIL_USERNAME'' \<mapsto> py ''user'',
                  py ''GMAIL_PASSWORD'' \<mapsto> py ''secret'']"

definition example_lib :: "(bytes \<Rightarrow> message) \<Rightarrow> lib" where
  "example_lib parser =
     \<lparr>decode = ascii_decode, html_get_text = (\<lambda>html. html),
      parsebytes = parser, message_from_bytes = parser,
      reformat_date = (\<lambda>s. if s = py ''01.02.2020'' then Some (py ''01-Feb-2020'') else None),
      getenv = example_env, getcwd = py ''/home/user'',
      can_open_wb = (\<lambda>path. prefix (py ''/home/user/attachments/'') path),
      imap_search = (\<lambda>criteria. (py ''OK'', [])),
      imap_fetch = (\<lambda>num. (py ''NO'', []))\<rparr>"

definition empty_world :: world where
  "empty_world = \<lparr>files = Map.empty, stdout = [], network = []\<rparr>"

definition vault_world :: world where
  "vault_world = \<lparr>files = [py ''vault.txt'' \<mapsto> py ''old'' @ [10]], stdout = [], network = []\<rparr>"

subsection \<open>Predicates used in the statements and their proofs\<close>

text \<open>What the loop of \<open>chunk_text\<close> keeps true of every chunk, for the sentences \<open>S\<close>.\<close>

definition chunk_ok :: "int \<Rightarrow> pystr set \<Rightarrow> pystr \<Rightarrow> bool" where
  "chunk_ok ml S c \<longleftrightarrow>
     int (length c) < ml \<or> (\<exists>s\<in>S. c = s @ py '' '' \<and> ml - 1 \<le> int (length s)) \<or> (c = [] \<and> ml \<le> 0)"

text \<open>The pattern \<open>m\<close> matches at no position of the text.\<close>

fun no_match :: "(pystr \<Rightarrow> nat) \<Rightarrow> pystr \<Rightarrow> bool" where
  "no_match m [] = True"
| "no_match m (c # cs) = (m (c # cs) = 0 \<and> no_match m cs)"

text \<open>
  Every whitespace character is a space (code 32) and is followed by a character that
  is not whitespace, or by the end.  A text is \<open>tidy\<close> when moreover it neither begins
  nor ends with whitespace.
\<close>

fun collapsed :: "pystr \<Rightarrow> bool" where
  "collapsed [] = True"
| "collapsed (c # r) = ((is_space c \<longrightarrow> c = 32 \<and> (r = [] \<or> \<not> is_space (hd r))) \<and> collapsed r)"

definition tidy :: "pystr \<Rightarrow> bool" where
  "tidy t \<longleftrightarrow> collapsed t \<and> (t = [] \<or> (\<not> is_space (hd t) \<and> \<not> is_space (last t)))"

text \<open>The text begins with what the URL pattern needs: a scheme or \<open>www.\<close> and one more
  character that is not whitespace.\<close>

definition url_start :: "pystr \<Rightarrow> bool" where
  "url_start t \<longleftrightarrow>
     (\<exists>c. \<not> is_space c \<and>
        (prefix (py ''http://'' @ [c]) t \<or> prefix (py ''https://'' @ [c]) t \<or> prefix (py ''www.'' @ [c]) t))"

text \<open>The literal beginnings of the URL pattern.\<close>

definition url_lit :: "pystr \<Rightarrow> bool" where
  "url_lit l \<longleftrightarrow> l = py ''https://'' \<or> l = py ''http://'' \<or> l = py ''www.''"

text \<open>Sentences put together again with one space between two of them.\<close>

fun join_spaces :: "pystr list \<Rightarrow> pystr" where
  "join_spaces [] = []"
| "join_spaces [s] = s"
| "join_spaces (s # s' # r) = s @ [32] @ join_spaces (s' # r)"
section \<open>Substitution in general\<close>

lemma py_space: "py '' '' = [32]"
  by (simp add: py_def)

lemma set_re_sub: "set (re_sub m repl s) \<subseteq> set s \<union> set repl"
proof (induction m repl s rule: re_sub.induct)
  case (1 m repl)
  then show ?case by simp
next
  case (2 m repl c cs)
  show ?case
  proof (cases "m (c # cs) = 0")
    case True
    with 2 show ?thesis by auto
  next
    case False
    have "set (drop (m (c # cs)) (c # cs)) \<subseteq> set (c # cs)" by (rule set_drop_subset)
    with 2(2)[OF False] False show ?thesis by auto
  qed
qed

lemma re_sub_no_match: "no_match m s \<Longrightarrow> re_sub m repl s = s"
  by (induction s) auto

lemma no_match_suffix: "no_match m t \<Longrightarrow> suffix t' t \<Longrightarrow> t' \<noteq> [] \<Longrightarrow> m t' = 0"
  by (induction t) (auto simp: suffix_Cons)

lemma no_matchI: "(\<And>t'. suffix t' t \<Longrightarrow> t' \<noteq> [] \<Longrightarrow> m t' = 0) \<Longrightarrow> no_match m t"
  by (induction t) (auto simp: suffix_Cons)

text \<open>A factor that shares no character with a non-empty separator lies on one side of it.\<close>

lemma sublist_across:
  assumes "sublist f (a @ r @ b)" "r \<noteq> []" "\<And>x. x \<in> set r \<Longrightarrow> x \<notin> set f"
  shows "sublist f a \<or> sublist f b"
proof -
  have edge: "f1 = []" if "set f1 \<subseteq> set r" "set f1 \<subseteq> set f" for f1
  proof (cases f1)
    case Nil
    then show ?thesis .
  next
    case (Cons x xs)
    with that have "x \<in> set r" "x \<in> set f" by auto
    with assms(3) show ?thesis by simp
  qed
  have inner: "sublist f b" if "sublist f (r @ b)" "f \<noteq> []"
  proof -
    from that(1) consider "sublist f r" | "sublist f b"
      | f1 f2 where "f = f1 @ f2" "suffix f1 r" "prefix f2 b"
      unfolding sublist_append by blast
    then show ?thesis
    proof cases
      case 1
      then have "set f \<subseteq> set r" by (rule set_mono_sublist)
      then have "f = []" using edge[of f] by simp
      with that(2) show ?thesis by simp
    next
      case 2
      then show ?thesis .
    next
      case 3
      from 3(2) have "set f1 \<subseteq> set r" by (rule set_mono_suffix)
      moreover have "set f1 \<subseteq> set f" using 3(1) by simp
      ultimately have "f1 = []" by (rule edge)
      with 3 show ?thesis by simp
    qed
  qed
  show ?thesis
  proof (cases "f = []")
    case True
    then show ?thesis by simp
  next
    case False
    from assms(1) consider "sublist f a" | "sublist f (r @ b)"
      | f1 f2 where "f = f1 @ f2" "suffix f1 a" "prefix f2 (r @ b)"
      unfolding sublist_append by blast
    then show ?thesis
    proof cases
      case 1
      then show ?thesis by simp
    next
      case 2
      with inner False show ?thesis by simp
    next
      case 3
      show ?thesis
      proof (cases f2)
        case Nil
        with 3 show ?thesis by simp
      next
        case (Cons x xs)
        with 3(3) assms(2) have "x = hd r" by (cases r) auto
        with assms(2) have "x \<in> set r" by simp
        moreover have "x \<in> set f" using 3(1) Cons by simp
        ultimately show ?thesis using assms(3) by simp
      qed
    qed
  qed
qed

lemma not_sublist_append_left: "\<not> sublist f (u @ s) \<Longrightarrow> \<not> sublist f u"
  using sublist_order.order_trans[OF _ sublist_append_rightI] by blast

lemma not_sublist_append_right: "\<not> sublist f (u @ s) \<Longrightarrow> \<not> sublist f s"
  using sublist_order.order_trans[OF _ sublist_append_leftI] by blast

lemma not_sublist_drop: "\<not> sublist f s \<Longrightarrow> \<not> sublist f (drop n s)"
  using sublist_order.order_trans[OF _ sublist_drop] by blast

text \<open>
  A substitution whose replacement is not empty and shares no character with \<open>f\<close>
  cannot create the factor \<open>f\<close>.
\<close>

lemma re_sub_keeps_free_ctx:
  "repl \<noteq> [] \<Longrightarrow> (\<forall>x\<in>set repl. x \<notin> set f) \<Longrightarrow> \<not> sublist f (u @ s)
     \<Longrightarrow> \<not> sublist f (u @ re_sub m repl s)"
proof (induction m repl s arbitrary: u rule: re_sub.induct)
  case (1 m repl)
  then show ?case by simp
next
  case (2 m repl c cs)
  note ne = \<open>repl \<noteq> []\<close> and dis = \<open>\<forall>x\<in>set repl. x \<notin> set f\<close> and free = \<open>\<not> sublist f (u @ c # cs)\<close>
  show ?case
  proof (cases "m (c # cs) = 0")
    case True
    have "\<not> sublist f ((u @ [c]) @ cs)" using free by simp
    from 2(1)[OF True ne dis this] True show ?thesis by simp
  next
    case False
    let ?rest = "drop (m (c # cs)) (c # cs)"
    have "\<not> sublist f (c # cs)" using free by (rule not_sublist_append_right)
    then have "\<not> sublist f ([] @ ?rest)" using not_sublist_drop by simp
    from 2(2)[OF False ne dis this] have a: "\<not> sublist f (re_sub m repl ?rest)" by simp
    have b: "\<not> sublist f u" using free by (rule not_sublist_append_left)
    have "\<not> sublist f (u @ repl @ re_sub m repl ?rest)"
      using sublist_across[of f u repl "re_sub m repl ?rest"] ne dis a b by blast
    then show ?thesis using False by simp
  qed
qed

lemma re_sub_keeps_free:
  assumes "repl \<noteq> []" "\<forall>x\<in>set repl. x \<notin> set f" "\<not> sublist f s"
  shows "\<not> sublist f (re_sub m repl s)"
  using re_sub_keeps_free_ctx[OF assms(1,2), of "[]" s m] assms(3) by simp
section \<open>The single patterns\<close>

subsection \<open>Runs of one class\<close>

lemma m_run_match:
  "m_run p k t \<noteq> 0 \<Longrightarrow>
     k \<le> length (takeWhile p t) \<and> m_run p k t = length (takeWhile p t)
     \<and> drop (m_run p k t) t = dropWhile p t"
  by (auto simp: m_run_def Let_def dropWhile_eq_drop split: if_splits)

lemma m_run_zero: "m_run p k t = 0 \<longleftrightarrow> length (takeWhile p t) < k \<or> takeWhile p t = []"
  by (auto simp: m_run_def Let_def)

lemma run_not_longer:
  "\<not> p r \<Longrightarrow> length (takeWhile p (re_sub (m_run p k) [r] t)) \<le> length (takeWhile p t)"
proof (induction "m_run p k" "[r]" t rule: re_sub.induct)
  case 1
  then show ?case by simp
next
  case (2 c cs)
  show ?case
  proof (cases "m_run p k (c # cs) = 0")
    case True
    with 2 show ?thesis by simp
  next
    case False
    with 2(3) show ?thesis by simp
  qed
qed

text \<open>After \<open>X{k,}\<close> has been replaced by a character outside \<open>X\<close>, no run of \<open>k\<close> is left.\<close>

lemma run_removed:
  assumes "\<not> p r" "1 \<le> k"
  shows "no_match (m_run p k) (re_sub (m_run p k) [r] t)"
proof (induction "m_run p k" "[r]" t rule: re_sub.induct)
  case 1
  then show ?case by simp
next
  case (2 c cs)
  show ?case
  proof (cases "m_run p k (c # cs) = 0")
    case True
    have "m_run p k (c # re_sub (m_run p k) [r] cs) = 0"
    proof (cases "p c")
      case False
      then show ?thesis using assms(2) by (simp add: m_run_zero)
    next
      case pc: True
      from True pc have "Suc (length (takeWhile p cs)) < k" by (simp add: m_run_zero)
      with run_not_longer[of p r k cs] assms(1) pc show ?thesis by (simp add: m_run_zero)
    qed
    with 2(1)[OF True] True show ?thesis by simp
  next
    case False
    have "m_run p k (r # re_sub (m_run p k) [r] (drop (m_run p k (c # cs)) (c # cs))) = 0"
      using assms by (simp add: m_run_zero)
    with 2(2)[OF False] False show ?thesis by simp
  qed
qed

lemma three_run_prefix:
  "3 \<le> length (takeWhile (\<lambda>x. x = c) t) \<Longrightarrow> prefix [c, c, c] t"
proof -
  assume a: "3 \<le> length (takeWhile (\<lambda>x. x = c) t)"
  then obtain x1 t1 where t: "t = x1 # t1" by (cases t) auto
  with a have x1: "x1 = c" by (auto split: if_splits)
  with a t obtain x2 t2 where t1: "t1 = x2 # t2" by (cases t1) auto
  with a t x1 have x2: "x2 = c" by (auto split: if_splits)
  with a t x1 t1 obtain x3 t3 where t2: "t2 = x3 # t3" by (cases t2) auto
  with a t x1 t1 x2 have "x3 = c" by (auto split: if_splits)
  with t t1 t2 x1 x2 show ?thesis by simp
qed

lemma sublist_suffix_prefix:
  "sublist f t \<Longrightarrow> f \<noteq> [] \<Longrightarrow> \<exists>t'. suffix t' t \<and> t' \<noteq> [] \<and> prefix f t'"
  unfolding sublist_altdef' by auto

lemma no_three_iff:
  "no_match (m_run (\<lambda>x. x = c) 3) t \<longleftrightarrow> \<not> sublist [c, c, c] t"
proof
  assume nm: "no_match (m_run (\<lambda>x. x = c) 3) t"
  show "\<not> sublist [c, c, c] t"
  proof
    assume "sublist [c, c, c] t"
    then obtain t' where t': "suffix t' t" "t' \<noteq> []" "prefix [c, c, c] t'"
      using sublist_suffix_prefix by blast
    from t'(3) obtain r where "t' = [c, c, c] @ r" by (auto simp: prefix_def)
    then have "m_run (\<lambda>x. x = c) 3 t' \<noteq> 0" by (simp add: m_run_def Let_def)
    with no_match_suffix[OF nm t'(1,2)] show False by simp
  qed
next
  assume free: "\<not> sublist [c, c, c] t"
  show "no_match (m_run (\<lambda>x. x = c) 3) t"
  proof (rule no_matchI)
    fix t' assume t': "suffix t' t" "t' \<noteq> []"
    show "m_run (\<lambda>x. x = c) 3 t' = 0"
    proof (rule ccontr)
      assume "m_run (\<lambda>x. x = c) 3 t' \<noteq> 0"
      then have "3 \<le> length (takeWhile (\<lambda>x. x = c) t')" using m_run_match by blast
      then have "prefix [c, c, c] t'" by (rule three_run_prefix)
      then have "sublist [c, c, c] t'" by (rule prefix_imp_sublist)
      with t'(1) have "sublist [c, c, c] t"
        using sublist_order.order_trans suffix_imp_sublist by blast
      with free show False by simp
    qed
  qed
qed

lemma three_removed: "c \<noteq> r \<Longrightarrow> \<not> sublist [c, c, c] (re_sub (m_run (\<lambda>x. x = c) 3) [r] t)"
  using run_removed[of "\<lambda>x. x = c" r 3 t] by (simp add: no_three_iff)

subsection \<open>Quote markers\<close>

lemma m_quote_two: "m_quote (62 # 62 # r) \<noteq> 0"
  by (simp add: m_quote_def Let_def)

lemma re_sub_hd:
  "re_sub m [r] s \<noteq> [] \<Longrightarrow> hd (re_sub m [r] s) \<noteq> r \<Longrightarrow> s \<noteq> [] \<and> hd s = hd (re_sub m [r] s)"
  by (cases s) (auto split: if_splits)

lemma quotes_removed: "\<not> sublist [62, 62] (re_sub m_quote [32] s)"
proof (induction m_quote "[32::nat]" s rule: re_sub.induct)
  case 1
  then show ?case by simp
next
  case (2 c cs)
  show ?case
  proof (cases "m_quote (c # cs) = 0")
    case True
    have "\<not> prefix [62, 62] (c # re_sub m_quote [32] cs)"
    proof
      assume p: "prefix [62, 62] (c # re_sub m_quote [32] cs)"
      then have c: "c = 62" and "prefix [62] (re_sub m_quote [32] cs)" by auto
      then have "re_sub m_quote [32] cs \<noteq> []" "hd (re_sub m_quote [32] cs) = 62"
        by (auto simp: prefix_def)
      with re_sub_hd[of m_quote 32 cs] have "cs \<noteq> []" "hd cs = 62" by auto
      then obtain r where "cs = 62 # r" by (cases cs) auto
      with c True m_quote_two[of r] show False by simp
    qed
    with 2(1)[OF True] True show ?thesis by (simp add: sublist_Cons_right)
  next
    case False
    with 2(2)[OF False] show ?thesis by (simp add: sublist_Cons_right)
  qed
qed
subsection \<open>URLs\<close>

lemma py_lits:
  "py ''http'' = [104, 116, 116, 112]" "py ''s'' = [115]" "py ''://'' = [58, 47, 47]"
  "py ''www.'' = [119, 119, 119, 46]" "py ''http://'' = [104, 116, 116, 112, 58, 47, 47]"
  "py ''https://'' = [104, 116, 116, 112, 115, 58, 47, 47]"
  by (simp_all add: py_def)

lemma url_lit_chars: "url_lit l \<Longrightarrow> l \<noteq> [] \<and> (\<forall>c\<in>set l. \<not> is_space c)"
  by (auto simp: url_lit_def py_lits is_space_def)

lemma nonspace_run_pos: "Suc 0 \<le> nonspace_run r \<longleftrightarrow> r \<noteq> [] \<and> \<not> is_space (hd r)"
  by (cases r) (auto simp: nonspace_run_def)

lemma url_match:
  assumes "url_lit l" "1 \<le> nonspace_run r"
  shows "m_url (l @ r) = length l + nonspace_run r"
  using assms by (auto simp: url_lit_def py_lits m_url_def url_tail_def Let_def)

lemma url_shape:
  assumes "m_url t \<noteq> 0"
  shows "\<exists>l r. t = l @ r \<and> url_lit l \<and> 1 \<le> nonspace_run r \<and> m_url t = length l + nonspace_run r"
proof (cases "prefix (py ''http'') t")
  case True
  then obtain r where t: "t = py ''http'' @ r" by (auto simp: prefix_def)
  show ?thesis
  proof (cases "prefix (py ''s'') r \<and> url_tail (drop 1 r) \<noteq> 0")
    case s: True
    then obtain r1 where r: "r = py ''s'' @ r1" by (auto simp: prefix_def)
    with s have "url_tail r1 \<noteq> 0" by (simp add: py_lits)
    then have "prefix (py ''://'') r1 \<and> 1 \<le> nonspace_run (drop 3 r1)"
      by (auto simp: url_tail_def split: if_splits)
    then obtain r2 where r1: "r1 = py ''://'' @ r2" "1 \<le> nonspace_run r2"
      by (auto simp: prefix_def py_lits)
    have "t = py ''https://'' @ r2" using t r r1 by (simp add: py_lits)
    moreover have "url_lit (py ''https://'')" by (simp add: url_lit_def)
    ultimately show ?thesis using url_match r1(2) by blast
  next
    case False
    with assms t have "url_tail r \<noteq> 0"
      by (auto simp: m_url_def Let_def py_lits split: if_splits)
    then have "prefix (py ''://'') r \<and> 1 \<le> nonspace_run (drop 3 r)"
      by (auto simp: url_tail_def split: if_splits)
    then obtain r2 where r1: "r = py ''://'' @ r2" "1 \<le> nonspace_run r2"
      by (auto simp: prefix_def py_lits)
    have "t = py ''http://'' @ r2" using t r1 by (simp add: py_lits)
    moreover have "url_lit (py ''http://'')" by (simp add: url_lit_def)
    ultimately show ?thesis using url_match r1(2) by blast
  qed
next
  case False
  with assms have "prefix (py ''www.'') t \<and> 1 \<le> nonspace_run (drop 4 t)"
    by (auto simp: m_url_def split: if_splits)
  then obtain r where "t = py ''www.'' @ r" "1 \<le> nonspace_run r"
    by (auto simp: prefix_def py_lits)
  moreover have "url_lit (py ''www.'')" by (simp add: url_lit_def)
  ultimately show ?thesis using url_match by blast
qed

lemma url_start_iff: "url_start t \<longleftrightarrow> m_url t \<noteq> 0"
proof
  assume "url_start t"
  then obtain c l where c: "\<not> is_space c" "url_lit l" "prefix (l @ [c]) t"
    unfolding url_start_def url_lit_def by blast
  then obtain r where "t = l @ (c # r)" by (auto simp: prefix_def)
  moreover have "1 \<le> nonspace_run (c # r)" using c(1) by (simp add: nonspace_run_def)
  ultimately show "m_url t \<noteq> 0" using url_match[OF c(2)] url_lit_chars[OF c(2)] by auto
next
  assume "m_url t \<noteq> 0"
  then obtain l r where s: "t = l @ r" "url_lit l" "1 \<le> nonspace_run r"
    using url_shape by blast
  then obtain c r' where "r = c # r'" "\<not> is_space c"
    by (cases r) (auto simp: nonspace_run_pos)
  with s have "\<not> is_space c \<and> prefix (l @ [c]) t" by simp
  with s(2) show "url_start t" unfolding url_start_def url_lit_def by blast
qed

lemma url_not_at_space: "is_space c \<Longrightarrow> m_url (c # cs) = 0"
proof (rule ccontr)
  assume c: "is_space c" and "m_url (c # cs) \<noteq> 0"
  then obtain l r where "c # cs = l @ r" "url_lit l" using url_shape by blast
  with url_lit_chars[of l] have "\<not> is_space c" by (cases l) auto
  with c show False by simp
qed

lemma url_rest:
  assumes "m_url t \<noteq> 0"
  shows "drop (m_url t) t = [] \<or> is_space (hd (drop (m_url t) t))"
proof -
  from assms obtain l r where s: "t = l @ r" "m_url t = length l + nonspace_run r"
    using url_shape by blast
  then have "drop (m_url t) t = dropWhile (\<lambda>c. \<not> is_space c) r"
    by (simp add: nonspace_run_def dropWhile_eq_drop)
  then show ?thesis using hd_dropWhile[of "\<lambda>c. \<not> is_space c" r] by auto
qed

text \<open>What remains behind a removed URL is empty or begins with whitespace.\<close>

lemma url_sub_rest:
  assumes "m_url t \<noteq> 0"
  shows "re_sub m_url [] t = [] \<or>
         (\<exists>w r. is_space w \<and> re_sub m_url [] t = w # re_sub m_url [] r
                \<and> drop (m_url t) t = w # r)"
proof -
  from assms obtain c cs where t: "t = c # cs" by (cases t) (auto simp: m_url_def py_lits)
  show ?thesis
  proof (cases "drop (m_url t) t")
    case Nil
    with assms t show ?thesis by simp
  next
    case (Cons w r)
    with url_rest[OF assms] have w: "is_space w" by simp
    then have "re_sub m_url [] (w # r) = w # re_sub m_url [] r"
      by (simp add: url_not_at_space)
    with assms t Cons w show ?thesis by simp
  qed
qed

lemma url_sub_keeps_free_ctx:
  "(\<forall>x\<in>set f. \<not> is_space x) \<Longrightarrow> \<not> sublist f (u @ s) \<Longrightarrow> \<not> sublist f (u @ re_sub m_url [] s)"
proof (induction m_url "[]::pystr" s arbitrary: u rule: re_sub.induct)
  case 1
  then show ?case by simp
next
  case (2 c cs)
  note nows = \<open>\<forall>x\<in>set f. \<not> is_space x\<close> and free = \<open>\<not> sublist f (u @ c # cs)\<close>
  show ?case
  proof (cases "m_url (c # cs) = 0")
    case True
    have "\<not> sublist f ((u @ [c]) @ cs)" using free by simp
    from 2(1)[OF True nows this] True show ?thesis by simp
  next
    case False
    let ?rest = "drop (m_url (c # cs)) (c # cs)"
    have b: "\<not> sublist f u" using free by (rule not_sublist_append_left)
    have "\<not> sublist f (c # cs)" using free by (rule not_sublist_append_right)
    then have "\<not> sublist f ([] @ ?rest)" using not_sublist_drop by simp
    from 2(2)[OF False nows this] have a: "\<not> sublist f (re_sub m_url [] ?rest)" by simp
    have eq: "re_sub m_url [] (c # cs) = re_sub m_url [] ?rest" using False by simp
    from url_sub_rest[OF False] show ?thesis
    proof
      assume "re_sub m_url [] (c # cs) = []"
      with b show ?thesis by simp
    next
      assume "\<exists>w r. is_space w \<and> re_sub m_url [] (c # cs) = w # re_sub m_url [] r
                \<and> drop (m_url (c # cs)) (c # cs) = w # r"
      then obtain w r where w: "is_space w" "re_sub m_url [] (c # cs) = w # re_sub m_url [] r"
        by blast
      with a eq have "\<not> sublist f (re_sub m_url [] r)"
        using not_sublist_append_right[of f "[w]" "re_sub m_url [] r"] by simp
      moreover have "\<forall>x\<in>set [w]. x \<notin> set f" using w(1) nows by auto
      ultimately have "\<not> sublist f (u @ [w] @ re_sub m_url [] r)"
        using sublist_across[of f u "[w]" "re_sub m_url [] r"] b by blast
      with w(2) show ?thesis by simp
    qed
  qed
qed

lemma url_sub_keeps_free:
  "\<forall>x\<in>set f. \<not> is_space x \<Longrightarrow> \<not> sublist f s \<Longrightarrow> \<not> sublist f (re_sub m_url [] s)"
  using url_sub_keeps_free_ctx[of f "[]" s] by simp

lemma url_sub_prefix:
  "(\<forall>x\<in>set p. \<not> is_space x) \<Longrightarrow> prefix p (re_sub m_url [] t) \<Longrightarrow> prefix p t"
proof (induction m_url "[]::pystr" t arbitrary: p rule: re_sub.induct)
  case 1
  then show ?case by simp
next
  case (2 c cs)
  show ?case
  proof (cases "m_url (c # cs) = 0")
    case True
    show ?thesis
    proof (cases p)
      case Nil
      then show ?thesis by simp
    next
      case (Cons x p')
      with 2(3,4) True have "x = c" "\<forall>x\<in>set p'. \<not> is_space x" "prefix p' (re_sub m_url [] cs)"
        by auto
      with 2(1)[OF True, of p'] Cons show ?thesis by simp
    qed
  next
    case False
    from url_sub_rest[OF False] show ?thesis
    proof
      assume "re_sub m_url [] (c # cs) = []"
      with 2(4) show ?thesis by simp
    next
      assume "\<exists>w r. is_space w \<and> re_sub m_url [] (c # cs) = w # re_sub m_url [] r
                \<and> drop (m_url (c # cs)) (c # cs) = w # r"
      then obtain w r where w: "is_space w" "re_sub m_url [] (c # cs) = w # re_sub m_url [] r"
        by blast
      with 2(3,4) have "p = []" by (cases p) auto
      then show ?thesis by simp
    qed
  qed
qed

text \<open>After the URLs have been removed, the pattern matches nowhere.\<close>

lemma urls_removed: "no_match m_url (re_sub m_url [] s)"
proof (induction m_url "[]::pystr" s rule: re_sub.induct)
  case 1
  then show ?case by simp
next
  case (2 c cs)
  show ?case
  proof (cases "m_url (c # cs) = 0")
    case True
    have "m_url (c # re_sub m_url [] cs) = 0"
    proof (rule ccontr)
      assume "m_url (c # re_sub m_url [] cs) \<noteq> 0"
      then have "url_start (re_sub m_url [] (c # cs))" using True by (simp add: url_start_iff)
      then obtain x l where x: "\<not> is_space x" "url_lit l" "prefix (l @ [x]) (re_sub m_url [] (c # cs))"
        unfolding url_start_def url_lit_def by blast
      have "\<forall>y\<in>set (l @ [x]). \<not> is_space y" using x(1) url_lit_chars[OF x(2)] by auto
      from url_sub_prefix[OF this x(3)] x(1,2) have "url_start (c # cs)"
        unfolding url_start_def url_lit_def by blast
      with True show False by (simp add: url_start_iff)
    qed
    with 2(1)[OF True] True show ?thesis by simp
  next
    case False
    with 2(2)[OF False] show ?thesis by simp
  qed
qed

lemma url_free_iff:
  "no_match m_url t \<longleftrightarrow> (\<forall>l x. url_lit l \<and> \<not> is_space x \<longrightarrow> \<not> sublist (l @ [x]) t)"
proof
  assume nm: "no_match m_url t"
  show "\<forall>l x. url_lit l \<and> \<not> is_space x \<longrightarrow> \<not> sublist (l @ [x]) t"
  proof (intro allI impI notI)
    fix l x assume lx: "url_lit l \<and> \<not> is_space x" and "sublist (l @ [x]) t"
    then obtain t' where t': "suffix t' t" "t' \<noteq> []" "prefix (l @ [x]) t'"
      using sublist_suffix_prefix[of "l @ [x]" t] by auto
    with lx have "url_start t'" unfolding url_start_def url_lit_def by blast
    then have "m_url t' \<noteq> 0" by (simp add: url_start_iff)
    with no_match_suffix[OF nm t'(1,2)] show False by simp
  qed
next
  assume free: "\<forall>l x. url_lit l \<and> \<not> is_space x \<longrightarrow> \<not> sublist (l @ [x]) t"
  show "no_match m_url t"
  proof (rule no_matchI)
    fix t' assume t': "suffix t' t" "t' \<noteq> []"
    show "m_url t' = 0"
    proof (rule ccontr)
      assume "m_url t' \<noteq> 0"
      then have "url_start t'" by (simp add: url_start_iff)
      then obtain x l where x: "\<not> is_space x" "url_lit l" "prefix (l @ [x]) t'"
        unfolding url_start_def url_lit_def by blast
      then have "sublist (l @ [x]) t'" by simp
      with t'(1) have "sublist (l @ [x]) t"
        using sublist_order.order_trans suffix_imp_sublist by blast
      with free x show False by blast
    qed
  qed
qed
subsection \<open>Whitespace\<close>

lemma space_is_space: "is_space 32"
  by (simp add: is_space_def)

lemma collapsed_append: "collapsed (a @ b) \<Longrightarrow> collapsed a \<and> collapsed b"
proof (induction a)
  case Nil
  then show ?case by simp
next
  case (Cons x a)
  then show ?case by (cases a) auto
qed

lemma collapsed_sublist: "collapsed t \<Longrightarrow> sublist u t \<Longrightarrow> collapsed u"
  unfolding sublist_def using collapsed_append by blast

lemma m_space_zero: "m_run is_space (Suc 0) (c # cs) = 0 \<longleftrightarrow> \<not> is_space c"
  by (simp add: m_run_def Let_def)

lemma space_sub_hd:
  "\<not> is_space c \<Longrightarrow> re_sub (m_run is_space (Suc 0)) [32] (c # cs) = c # re_sub (m_run is_space (Suc 0)) [32] cs"
  by (simp add: m_space_zero)

lemma dropWhile_hd: "dropWhile P xs = x # r \<Longrightarrow> \<not> P x"
  by (metis hd_dropWhile list.sel(1) list.distinct(1))

text \<open>After \<open>\s+\<close> has been replaced by one space, the text is collapsed.\<close>

lemma spaces_collapsed: "collapsed (re_sub (m_run is_space (Suc 0)) [32] s)"
proof (induction "m_run is_space (Suc 0)" "[32::nat]" s rule: re_sub.induct)
  case 1
  then show ?case by simp
next
  case (2 c cs)
  let ?R = "re_sub (m_run is_space (Suc 0)) [32]"
  show ?case
  proof (cases "m_run is_space (Suc 0) (c # cs) = 0")
    case True
    then have "\<not> is_space c" by (simp add: m_space_zero)
    with 2(1)[OF True] True show ?thesis by simp
  next
    case False
    let ?rest = "drop (m_run is_space (Suc 0) (c # cs)) (c # cs)"
    have rest: "?rest = dropWhile is_space (c # cs)"
      using conjunct2[OF conjunct2[OF m_run_match[OF False]]] .
    have "?R ?rest = [] \<or> \<not> is_space (hd (?R ?rest))"
    proof (cases ?rest)
      case Nil
      then show ?thesis by simp
    next
      case (Cons x r)
      have "dropWhile is_space (c # cs) = x # r" using rest[symmetric] Cons by (rule trans)
      then have "\<not> is_space x" by (rule dropWhile_hd)
      with Cons show ?thesis by (simp add: m_space_zero)
    qed
    with 2(2)[OF False] False show ?thesis by simp
  qed
qed

lemma collapsed_space_sub_id: "collapsed t \<Longrightarrow> re_sub (m_run is_space (Suc 0)) [32] t = t"
proof (induction t)
  case Nil
  then show ?case by simp
next
  case (Cons c cs)
  show ?case
  proof (cases "is_space c")
    case False
    with Cons show ?thesis by (simp add: m_space_zero)
  next
    case True
    with Cons.prems have c: "c = 32" and nx: "cs = [] \<or> \<not> is_space (hd cs)" by auto
    from nx have "takeWhile is_space cs = []" by (cases cs) auto
    with True have "m_run is_space (Suc 0) (c # cs) = 1" by (simp add: m_run_def Let_def)
    with Cons c show ?thesis by simp
  qed
qed

lemma collapsed_no_double: "collapsed t \<Longrightarrow> no_match (m_run is_space 2) t"
proof (induction t)
  case Nil
  then show ?case by simp
next
  case (Cons c cs)
  have "length (takeWhile is_space (c # cs)) < 2"
  proof (cases "is_space c")
    case False
    then show ?thesis by simp
  next
    case True
    with Cons.prems have "cs = [] \<or> \<not> is_space (hd cs)" by auto
    then have "takeWhile is_space cs = []" by (cases cs) auto
    with True show ?thesis by simp
  qed
  with Cons show ?case by (simp add: m_run_zero)
qed

lemma collapsed_no_two_spaces: "collapsed t \<Longrightarrow> \<not> sublist [32, 32] t"
proof
  assume c: "collapsed t" and "sublist [32, 32] t"
  then have "collapsed [32, 32]" by (rule collapsed_sublist)
  then show False by (simp add: space_is_space)
qed

subsection \<open>\<open>strip\<close>\<close>

lemma strip_prefix_dropWhile: "prefix (strip t) (dropWhile is_space t)"
proof -
  let ?d = "dropWhile is_space t"
  have "rev ?d = takeWhile is_space (rev ?d) @ dropWhile is_space (rev ?d)" by simp
  then have "?d = rev (dropWhile is_space (rev ?d)) @ rev (takeWhile is_space (rev ?d))"
    by (metis rev_append rev_rev_ident)
  then show ?thesis unfolding strip_def prefix_def by blast
qed

lemma strip_sublist: "sublist (strip t) t"
proof -
  have "sublist (strip t) (dropWhile is_space t)"
    using strip_prefix_dropWhile by (rule prefix_imp_sublist)
  moreover have "sublist (dropWhile is_space t) t"
    by (rule suffix_imp_sublist) (rule suffix_dropWhile)
  ultimately show ?thesis by (rule sublist_order.order_trans)
qed

lemma strip_ends:
  "strip t = [] \<or> (\<not> is_space (hd (strip t)) \<and> \<not> is_space (last (strip t)))"
proof (cases "strip t = []")
  case True
  then show ?thesis by simp
next
  case False
  let ?d = "dropWhile is_space t"
  from strip_prefix_dropWhile[of t] obtain zs where zs: "?d = strip t @ zs"
    by (auto simp: prefix_def)
  with False have "hd ?d = hd (strip t)" "?d \<noteq> []" by simp_all
  then have h: "\<not> is_space (hd (strip t))" using hd_dropWhile[of is_space t] by simp
  from False have ne: "dropWhile is_space (rev ?d) \<noteq> []" by (simp add: strip_def)
  have "last (strip t) = hd (dropWhile is_space (rev ?d))"
    unfolding strip_def using ne by (simp add: last_rev)
  then have "\<not> is_space (last (strip t))" using hd_dropWhile[OF ne] by simp
  with h show ?thesis by simp
qed

lemma dropWhile_none: "xs = [] \<or> \<not> P (hd xs) \<Longrightarrow> dropWhile P xs = xs"
  by (cases xs) auto

lemma strip_id: "t = [] \<or> (\<not> is_space (hd t) \<and> \<not> is_space (last t)) \<Longrightarrow> strip t = t"
proof (cases t)
  case Nil
  then show ?thesis by (simp add: strip_def)
next
  case (Cons c cs)
  assume "t = [] \<or> (\<not> is_space (hd t) \<and> \<not> is_space (last t))"
  with Cons have h: "\<not> is_space c" and l: "\<not> is_space (last t)" by auto
  from h Cons have d: "dropWhile is_space t = t" by simp
  from l have "\<not> is_space (hd (rev t))" by (simp add: hd_rev)
  then have "dropWhile is_space (rev t) = rev t" by (simp add: dropWhile_none)
  with d show ?thesis by (simp add: strip_def)
qed

lemma tidy_strip: "collapsed t \<Longrightarrow> tidy (strip t)"
  unfolding tidy_def using collapsed_sublist[OF _ strip_sublist] strip_ends by blast

lemma strip_tidy: "tidy t \<Longrightarrow> strip t = t"
  unfolding tidy_def using strip_id by blast

lemma strip_sentence:
  assumes "s = [] \<or> (\<not> is_space (hd s) \<and> \<not> is_space (last s))"
  shows "strip (s @ [32]) = s"
proof (cases s)
  case Nil
  then show ?thesis by (simp add: strip_def space_is_space)
next
  case (Cons c cs)
  with assms have h: "\<not> is_space c" and l: "\<not> is_space (last s)" by auto
  from l have "\<not> is_space (hd (rev s))" by (simp add: hd_rev)
  then have "dropWhile is_space (rev s) = rev s" by (simp add: dropWhile_none)
  with h Cons show ?thesis by (simp add: strip_def space_is_space)
qed
section \<open>What normalization establishes\<close>

lemma normalize_steps:
  "normalize x =
     strip (re_sub (m_run is_space (Suc 0)) [32]
       (re_sub m_url []
         (re_sub (m_run is_space 2) [32]
           (re_sub (m_run (\<lambda>c. c = 95) 3) [32]
             (re_sub (m_run (\<lambda>c. c = 45) 3) [32]
               (re_sub m_quote [32] (filter (\<lambda>c. c < 128) x)))))))"
  by (simp add: normalize_def Let_def py_space)

lemma space_sub_keeps_free:
  "\<forall>x\<in>set f. \<not> is_space x \<Longrightarrow> \<not> sublist f t \<Longrightarrow> \<not> sublist f (re_sub m [32] t)"
  by (rule re_sub_keeps_free) (auto simp: space_is_space)

lemma strip_keeps_free: "\<not> sublist f t \<Longrightarrow> \<not> sublist f (strip t)"
  using sublist_order.order_trans[OF _ strip_sublist] by blast

lemma set_space_sub: "\<forall>c\<in>set t. c < 128 \<Longrightarrow> \<forall>c\<in>set (re_sub m [32] t). c < (128::nat)"
  using set_re_sub[of m "[32]" t] by auto

lemma set_del_sub: "\<forall>c\<in>set t. c < 128 \<Longrightarrow> \<forall>c\<in>set (re_sub m [] t). c < (128::nat)"
  using set_re_sub[of m "[]" t] by auto

lemma set_strip: "\<forall>c\<in>set t. c < 128 \<Longrightarrow> \<forall>c\<in>set (strip t). c < (128::nat)"
  using set_mono_sublist[OF strip_sublist, of t] by auto

lemma normalize_ascii: "\<forall>c\<in>set (normalize x). c < 128"
  unfolding normalize_steps
  by (intro set_strip set_space_sub set_del_sub) simp

lemma normalize_tidy: "tidy (normalize x)"
  unfolding normalize_steps by (rule tidy_strip) (rule spaces_collapsed)

lemma normalize_no_quote_run: "\<not> sublist [62, 62] (normalize x)"
  unfolding normalize_steps
  by (intro strip_keeps_free space_sub_keeps_free url_sub_keeps_free quotes_removed)
     (simp_all add: is_space_def)

lemma normalize_no_dashes: "\<not> sublist [45, 45, 45] (normalize x)"
  unfolding normalize_steps
  by (intro strip_keeps_free space_sub_keeps_free url_sub_keeps_free three_removed)
     (simp_all add: is_space_def)

lemma normalize_no_underscores: "\<not> sublist [95, 95, 95] (normalize x)"
  unfolding normalize_steps
  by (intro strip_keeps_free space_sub_keeps_free url_sub_keeps_free three_removed)
     (simp_all add: is_space_def)

lemma normalize_no_url: "no_match m_url (normalize x)"
proof -
  let ?u = "re_sub m_url []
         (re_sub (m_run is_space 2) [32]
           (re_sub (m_run (\<lambda>c. c = 95) 3) [32]
             (re_sub (m_run (\<lambda>c. c = 45) 3) [32]
               (re_sub m_quote [32] (filter (\<lambda>c. c < 128) x)))))"
  have u: "\<forall>l c. url_lit l \<and> \<not> is_space c \<longrightarrow> \<not> sublist (l @ [c]) ?u"
    using urls_removed[of "re_sub (m_run is_space 2) [32]
           (re_sub (m_run (\<lambda>c. c = 95) 3) [32]
             (re_sub (m_run (\<lambda>c. c = 45) 3) [32]
               (re_sub m_quote [32] (filter (\<lambda>c. c < 128) x))))"]
    by (simp only: url_free_iff)
  have "\<forall>l c. url_lit l \<and> \<not> is_space c \<longrightarrow> \<not> sublist (l @ [c]) (normalize x)"
  proof (intro allI impI)
    fix l c assume lc: "url_lit l \<and> \<not> is_space c"
    then have "\<forall>y\<in>set (l @ [c]). \<not> is_space y" using url_lit_chars[of l] by auto
    moreover have "\<not> sublist (l @ [c]) ?u" using u lc by blast
    ultimately show "\<not> sublist (l @ [c]) (normalize x)"
      unfolding normalize_steps by (intro strip_keeps_free space_sub_keeps_free)
  qed
  then show ?thesis by (simp only: url_free_iff)
qed

section \<open>Texts that normalization leaves alone\<close>

lemma two_filter:
  assumes "2 \<le> length (filter P p)"
  shows "\<exists>a x b y c. p = a @ x # b @ y # c \<and> P x \<and> P y \<and> (\<forall>z\<in>set b. \<not> P z)"
proof -
  from assms obtain x y rest where f: "filter P p = x # y # rest"
    by (cases "filter P p"; cases "tl (filter P p)") auto
  then obtain a vs where p: "p = a @ x # vs" "P x" "y # rest = filter P vs"
    by (auto simp: filter_eq_Cons_iff)
  from p(3)[symmetric] obtain b c where vs: "vs = b @ y # c" "\<forall>z\<in>set b. \<not> P z" "P y"
    by (auto simp: filter_eq_Cons_iff)
  with p show ?thesis by blast
qed

lemma all_space_collapsed:
  assumes "collapsed b" "\<forall>z\<in>set b. is_space z"
  shows "b = [] \<or> b = [32]"
proof (cases b)
  case Nil
  then show ?thesis by simp
next
  case (Cons x b')
  with assms have "x = 32" "b' = [] \<or> \<not> is_space (hd b')" by auto
  moreover have "b' \<noteq> [] \<longrightarrow> is_space (hd b')" using assms(2) Cons by (cases b') auto
  ultimately show ?thesis using Cons by auto
qed

lemma quote_free:
  assumes "collapsed y" "\<not> sublist [62, 62] y" "\<not> sublist [62, 32, 62] y"
  shows "no_match m_quote y"
proof (rule no_matchI)
  fix t' assume t': "suffix t' y" "t' \<noteq> []"
  let ?p = "takeWhile (\<lambda>c. is_space c \<or> c = 62) t'"
  show "m_quote t' = 0"
  proof (rule ccontr)
    assume "m_quote t' \<noteq> 0"
    then have "2 \<le> length (filter (\<lambda>c. c = 62) ?p)"
      by (auto simp: m_quote_def Let_def split: if_splits)
    then obtain a u b v c where d: "?p = a @ u # b @ v # c" "u = 62" "v = 62" "\<forall>z\<in>set b. z \<noteq> 62"
      using two_filter[of "\<lambda>c. c = 62" ?p] by blast
    have py: "sublist ?p y"
      using sublist_order.order_trans[OF sublist_takeWhile suffix_imp_sublist[OF t'(1)]] .
    have "sublist (62 # b @ [62]) ?p"
      unfolding d(1) d(2) d(3) sublist_def by (rule exI[of _ a], rule exI[of _ c]) simp
    then have mid: "sublist (62 # b @ [62]) y" using py by (rule sublist_order.order_trans)
    have "sublist b (62 # b @ [62])"
      unfolding sublist_def by (rule exI[of _ "[62]"], rule exI[of _ "[62]"]) simp
    then have "sublist b y" using mid by (rule sublist_order.order_trans)
    with assms(1) have cb: "collapsed b" by (rule collapsed_sublist)
    have "\<forall>z\<in>set ?p. is_space z \<or> z = 62" using set_takeWhileD by fastforce
    with d(1,4) have "\<forall>z\<in>set b. is_space z" by auto
    with cb have "b = [] \<or> b = [32]" by (rule all_space_collapsed)
    with mid assms(2,3) show False by auto
  qed
qed

lemma normalize_fixed:
  assumes "\<forall>c\<in>set y. c < 128" "tidy y" "\<not> sublist [62, 62] y" "\<not> sublist [62, 32, 62] y"
    "\<not> sublist [45, 45, 45] y" "\<not> sublist [95, 95, 95] y" "no_match m_url y"
  shows "normalize y = y"
proof -
  have c: "collapsed y" using assms(2) by (simp add: tidy_def)
  have 1: "filter (\<lambda>c. c < 128) y = y" using assms(1) by simp
  have 2: "re_sub m_quote [32] y = y"
    by (rule re_sub_no_match) (rule quote_free[OF c assms(3,4)])
  have 3: "re_sub (m_run (\<lambda>c. c = 45) 3) [32] y = y"
    by (rule re_sub_no_match) (simp add: no_three_iff assms(5))
  have 4: "re_sub (m_run (\<lambda>c. c = 95) 3) [32] y = y"
    by (rule re_sub_no_match) (simp add: no_three_iff assms(6))
  have 5: "re_sub (m_run is_space 2) [32] y = y"
    by (rule re_sub_no_match) (rule collapsed_no_double[OF c])
  have 6: "re_sub m_url [] y = y"
    by (rule re_sub_no_match) (rule assms(7))
  have 7: "re_sub (m_run is_space (Suc 0)) [32] y = y"
    by (rule collapsed_space_sub_id[OF c])
  have 8: "strip y = y" by (rule strip_tidy[OF assms(2)])
  show ?thesis unfolding normalize_steps 1 2 3 4 5 6 7 8 ..
qed

section \<open>Facts about the chunking loop\<close>

lemmas eval_text =
  chunk_text_def chunk_def is_terminal_def normalize_def py_def m_quote_def m_run_def m_url_def
  url_tail_def nonspace_run_def is_space_def strip_def

lemma length_strip_le: "length (strip s) \<le> length s"
proof -
  have "length (strip s) \<le> length (dropWhile is_space s)"
    unfolding strip_def using length_dropWhile_le[of is_space "rev (dropWhile is_space s)"] by simp
  also have "\<dots> \<le> length s" by (rule length_dropWhile_le)
  finally show ?thesis .
qed

lemma split_sentences_nonempty: "split_sentences s \<noteq> []"
  by (induction s rule: split_sentences.induct) (auto split: list.splits)

lemma chunk_alt:
  "chunk text ml =
     (let r = chunk_loop ml (split_sentences text) ([], [])
      in if snd r \<noteq> [] then fst r @ [snd r] else fst r)"
  by (simp add: chunk_def Let_def split: prod.splits)

lemma chunk_loop_append:
  "chunk_loop ml ss (cs, cur) =
     (cs @ fst (chunk_loop ml ss ([], cur)), snd (chunk_loop ml ss ([], cur)))"
proof (induction ss arbitrary: cs cur)
  case Nil
  then show ?case by simp
next
  case (Cons s ss)
  show ?case
  proof (cases "int (length cur) + int (length s) + 1 < ml")
    case True
    then show ?thesis using Cons.IH[of cs] by simp
  next
    case False
    then show ?thesis
      using Cons.IH[of "cs @ [cur]" "s @ py '' ''"] Cons.IH[of "[cur]" "s @ py '' ''"] by simp
  qed
qed

lemma chunk_loop_ok:
  assumes "\<forall>c\<in>set cs. chunk_ok ml S c" "chunk_ok ml S cur" "set ss \<subseteq> S"
  shows "(\<forall>c\<in>set (fst (chunk_loop ml ss (cs, cur))). chunk_ok ml S c)
       \<and> chunk_ok ml S (snd (chunk_loop ml ss (cs, cur)))"
  using assms
proof (induction ss arbitrary: cs cur)
  case Nil
  then show ?case by simp
next
  case (Cons s ss)
  show ?case
  proof (cases "int (length cur) + int (length s) + 1 < ml")
    case True
    have "length (strip (s @ py '' '')) \<le> length s + 1"
      using length_strip_le[of "s @ py '' ''"] by (simp add: py_def)
    with True have "chunk_ok ml S (cur @ strip (s @ py '' ''))"
      by (simp add: chunk_ok_def)
    from Cons.IH[OF Cons.prems(1) this] Cons.prems(3) True show ?thesis by simp
  next
    case False
    have "s \<in> S" using Cons.prems by simp
    then have new: "chunk_ok ml S (s @ py '' '')"
      unfolding chunk_ok_def by (cases "ml - 1 \<le> int (length s)") (auto simp: py_def)
    have "\<forall>c\<in>set (cs @ [cur]). chunk_ok ml S c" using Cons.prems by simp
    from Cons.IH[OF this new] Cons.prems(3) False show ?thesis by simp
  qed
qed

section \<open>The length of a chunk\<close>

text \<open>
  C1, as the code has it.  Every chunk is shorter than \<open>max_length\<close>, except a chunk that
  is one sentence followed by the space the loop appends, where the sentence has at
  least \<open>max_length - 1\<close> characters, and except the empty chunk flushed first when
  \<open>max_length\<close> is not positive.
\<close>

theorem chunk_length_bound:
  assumes "c \<in> set (chunk text max_length)"
  shows "int (length c) < max_length
       \<or> (\<exists>s\<in>set (split_sentences text). c = s @ py '' '' \<and> max_length - 1 \<le> int (length s))
       \<or> (c = [] \<and> max_length \<le> 0)"
proof -
  let ?S = "set (split_sentences text)"
  let ?r = "chunk_loop max_length (split_sentences text) ([], [])"
  have e: "chunk_ok max_length ?S []" by (auto simp: chunk_ok_def)
  have inv: "(\<forall>c\<in>set (fst ?r). chunk_ok max_length ?S c) \<and> chunk_ok max_length ?S (snd ?r)"
    by (rule chunk_loop_ok) (use e in auto)
  from assms have "c \<in> set (fst ?r) \<or> c = snd ?r"
    by (auto simp: chunk_alt Let_def split: if_splits)
  with inv have "chunk_ok max_length ?S c" by auto
  then show ?thesis by (simp add: chunk_ok_def)
qed

theorem chunk_length_bound_witness:
  "py ''One. '' \<in> set (chunk (py ''One. Two.'') 5)
   \<and> (int (length (py ''One. '')) < 5
       \<or> (\<exists>s\<in>set (split_sentences (py ''One. Two.'')).
             py ''One. '' = s @ py '' '' \<and> 5 - 1 \<le> int (length s))
       \<or> (py ''One. '' = [] \<and> (5::int) \<le> 0))"
proof -
  have h: "py ''One. '' \<in> set (chunk (py ''One. Two.'') 5)" by (simp add: eval_text)
  show ?thesis by (rule conjI[OF h chunk_length_bound[OF h]])
qed

text \<open>
  C1 as stated fails: with \<open>max_length = 5\<close> the sentence \<open>One.\<close> has four characters,
  fewer than \<open>max_length\<close>, and its chunk \<open>One.\<close> plus a space has five.
\<close>

theorem chunk_length_counterexample:
  "chunk_text (py ''One. Two.'') 5 = [[], py ''One. '', py ''Two. '']
   \<and> split_sentences (normalize (py ''One. Two.'')) = [py ''One.'', py ''Two.'']
   \<and> \<not> int (length (py ''One. '')) < 5
   \<and> \<not> 5 \<le> int (length (py ''One.''))"
  by (simp add: eval_text)

section \<open>The scenario of the two sentences\<close>

text \<open>
  C5.  Normalization gives \<open>Hello world. This is a test.\<close>; the loop then joins the two
  sentences without the space between them: \<open>(sentence + " ").strip()\<close> removes the
  space it has just appended.
\<close>

theorem scenario_hello_world:
  "normalize (py ''Hello world. >>>>> This is --- a test.'') = py ''Hello world. This is a test.''
   \<and> chunk_text (py ''Hello world. >>>>> This is --- a test.'') 1000
       = [py ''Hello world.This is a test.'']
   \<and> map strip (chunk_text (py ''Hello world. >>>>> This is --- a test.'') 1000)
       \<noteq> [normalize (py ''Hello world. >>>>> This is --- a test.'')]"
  by (simp add: eval_text)

section \<open>The characters of the chunks\<close>

lemma split_sentences_chars: "p \<in> set (split_sentences t) \<Longrightarrow> set p \<subseteq> set t"
proof (induction t arbitrary: p rule: split_sentences.induct)
  case 1
  then show ?case by simp
next
  case (2 c cs)
  show ?case
  proof (cases "is_terminal c \<and> cs \<noteq> [] \<and> hd cs = 32")
    case True
    with "2.prems" have "p = [c] \<or> p \<in> set (split_sentences (dropWhile (\<lambda>x. x = 32) cs))"
      by auto
    then show ?thesis
    proof
      assume "p = [c]"
      then show ?thesis by simp
    next
      assume "p \<in> set (split_sentences (dropWhile (\<lambda>x. x = 32) cs))"
      from "2.IH"(1)[OF True this] have "set p \<subseteq> set (dropWhile (\<lambda>x. x = 32) cs)" .
      also have "\<dots> \<subseteq> set cs" using set_dropWhileD by fastforce
      finally show ?thesis by auto
    qed
  next
    case False
    obtain q qs where s: "split_sentences cs = q # qs"
      using split_sentences_nonempty[of cs] by (cases "split_sentences cs") auto
    have "split_sentences (c # cs) = (c # q) # qs" using False s by auto
    with "2.prems" have "p = c # q \<or> p \<in> set qs" by auto
    then show ?thesis
    proof
      assume "p = c # q"
      with "2.IH"(2)[OF False, of q] s show ?thesis by auto
    next
      assume "p \<in> set qs"
      with "2.IH"(2)[OF False, of p] s show ?thesis by auto
    qed
  qed
qed

lemma strip_chars: "set (strip s) \<subseteq> set s"
proof -
  have "set (strip s) \<subseteq> set (dropWhile is_space s)"
    unfolding strip_def using set_dropWhileD[of _ is_space "rev (dropWhile is_space s)"] by auto
  also have "\<dots> \<subseteq> set s" using set_dropWhileD by fastforce
  finally show ?thesis .
qed

lemma chunk_loop_chars:
  assumes "\<forall>s\<in>set ss. set s \<subseteq> A" "\<forall>c\<in>set cs. set c \<subseteq> A" "set cur \<subseteq> A" "32 \<in> A"
  shows "(\<forall>c\<in>set (fst (chunk_loop ml ss (cs, cur))). set c \<subseteq> A)
       \<and> set (snd (chunk_loop ml ss (cs, cur))) \<subseteq> A"
  using assms
proof (induction ss arbitrary: cs cur)
  case Nil
  then show ?case by simp
next
  case (Cons s ss)
  from Cons.prems have s: "set s \<subseteq> A" and rest: "\<forall>s\<in>set ss. set s \<subseteq> A" by auto
  show ?case
  proof (cases "int (length cur) + int (length s) + 1 < ml")
    case True
    have "set (strip (s @ py '' '')) \<subseteq> A"
      using strip_chars[of "s @ py '' ''"] s Cons.prems(4) by (auto simp: py_def)
    with Cons.prems(3) have "set (cur @ strip (s @ py '' '')) \<subseteq> A" by simp
    from Cons.IH[OF rest Cons.prems(2) this Cons.prems(4)] True show ?thesis by simp
  next
    case False
    have new: "set (s @ py '' '') \<subseteq> A" using s Cons.prems(4) by (simp add: py_def)
    have "\<forall>c\<in>set (cs @ [cur]). set c \<subseteq> A" using Cons.prems(2,3) by simp
    from Cons.IH[OF rest this new Cons.prems(4)] False show ?thesis by simp
  qed
qed

lemma chunk_chars:
  assumes "c \<in> set (chunk t ml)"
  shows "set c \<subseteq> insert 32 (set t)"
proof -
  let ?A = "insert 32 (set t)"
  let ?r = "chunk_loop ml (split_sentences t) ([], [])"
  have "\<forall>s\<in>set (split_sentences t). set s \<subseteq> ?A" using split_sentences_chars by fastforce
  then have inv: "(\<forall>c\<in>set (fst ?r). set c \<subseteq> ?A) \<and> set (snd ?r) \<subseteq> ?A"
    by (rule chunk_loop_chars) simp_all
  from assms have "c \<in> set (fst ?r) \<or> c = snd ?r"
    by (auto simp: chunk_alt Let_def split: if_splits)
  with inv show ?thesis by auto
qed

lemma collapsed_space_chars: "collapsed t \<Longrightarrow> x \<in> set t \<Longrightarrow> is_space x \<Longrightarrow> x = 32"
  by (induction t) auto

text \<open>
  A chunk of \<open>chunk_text\<close> has only ASCII characters, and no whitespace but the space.
\<close>

lemma chunk_text_chars:
  assumes "ch \<in> set (chunk_text x ml)" "c \<in> set ch"
  shows "c < 128 \<and> (is_space c \<longrightarrow> c = 32)"
proof -
  from assms have "c = 32 \<or> c \<in> set (normalize x)"
    using chunk_chars[of ch "normalize x" ml] by (auto simp: chunk_text_def)
  then show ?thesis
  proof
    assume "c = 32"
    then show ?thesis by simp
  next
    assume c: "c \<in> set (normalize x)"
    have "collapsed (normalize x)" using normalize_tidy[of x] by (simp add: tidy_def)
    with c normalize_ascii[of x] collapsed_space_chars[of "normalize x" c] show ?thesis by blast
  qed
qed

lemma chunk_text_no_newline:
  assumes "ch \<in> set (chunk_text x ml)"
  shows "10 \<notin> set (strip ch)"
proof
  assume "10 \<in> set (strip ch)"
  then have "10 \<in> set ch" using strip_chars by blast
  from chunk_text_chars[OF assms this] show False by (simp add: is_space_def)
qed

lemma vault_lines_chars:
  "c \<in> set (vault_lines cs) \<Longrightarrow> c = 10 \<or> (\<exists>ch\<in>set cs. c \<in> set (strip ch))"
  by (induction cs) (auto simp: vault_lines_def)

lemma chunk_text_encodable: "list_all utf8_encodable (vault_lines (chunk_text x ml))"
proof -
  have "utf8_encodable c" if "c \<in> set (vault_lines (chunk_text x ml))" for c
  proof -
    from that have "c = 10 \<or> (\<exists>ch\<in>set (chunk_text x ml). c \<in> set (strip ch))"
      by (rule vault_lines_chars)
    then have "c < 128" using chunk_text_chars[of _ x ml c] strip_chars by fastforce
    then show ?thesis by (simp add: utf8_encodable_def)
  qed
  then show ?thesis by (simp add: list_all_iff)
qed

section \<open>The vault\<close>

lemma lines_from_line:
  "10 \<notin> set l \<Longrightarrow> lines_from cur (l @ 10 # r) = (cur @ l) # lines_from [] r"
  by (induction l arbitrary: cur) auto

lemma file_lines_vault:
  "\<forall>l\<in>set ls. 10 \<notin> set l \<Longrightarrow> lines_from [] (concat (map (\<lambda>l. l @ [10]) ls)) = ls"
  by (induction ls) (auto simp: lines_from_line)

text \<open>
  C9, as the code has it.  When \<open>VAULT_FILENAME\<close> names a file and every character to
  be written can be encoded in UTF-8, \<open>save_chunks_to_vault\<close> returns, and the vault
  then holds its old content followed by each chunk, stripped and ended by a newline,
  in order; no other file, the output and the network are untouched.  A character that
  cannot be encoded raises \<open>UnicodeEncodeError\<close>.  When no stripped chunk has a newline
  inside, the appended text read back as lines is the list of the stripped chunks: one
  line per chunk.  Both conditions hold for the chunks of \<open>chunk_text\<close>.
\<close>

theorem save_chunks_to_vault_appends:
  assumes "getenv L (py ''VAULT_FILENAME'') = Some path" "path \<noteq> []"
  shows "(list_all utf8_encodable (vault_lines chunks) \<longrightarrow>
          (\<exists>w'. save_chunks_to_vault L chunks w = Inr w'
            \<and> files w' path = Some (old_content w path @ concat (map (\<lambda>chunk. strip chunk @ [10]) chunks))
            \<and> (\<forall>q. q \<noteq> path \<longrightarrow> files w' q = files w q)
            \<and> stdout w' = stdout w \<and> network w' = network w))
      \<and> (\<not> list_all utf8_encodable (vault_lines chunks) \<longrightarrow>
          save_chunks_to_vault L chunks w = Inl UnicodeEncodeError)
      \<and> ((\<forall>chunk\<in>set chunks. 10 \<notin> set (strip chunk)) \<longrightarrow>
           file_lines (concat (map (\<lambda>chunk. strip chunk @ [10]) chunks)) = map strip chunks)
      \<and> (\<forall>x max_length. list_all utf8_encodable (vault_lines (chunk_text x max_length))
            \<and> (\<forall>chunk\<in>set (chunk_text x max_length). 10 \<notin> set (strip chunk)))"
proof -
  have lines: "(\<forall>chunk\<in>set chunks. 10 \<notin> set (strip chunk)) \<longrightarrow>
        file_lines (concat (map (\<lambda>chunk. strip chunk @ [10]) chunks)) = map strip chunks"
    using file_lines_vault[of "map strip chunks"] by (simp add: file_lines_def comp_def)
  have ok: "list_all utf8_encodable (vault_lines chunks) \<longrightarrow>
          (\<exists>w'. save_chunks_to_vault L chunks w = Inr w'
            \<and> files w' path = Some (old_content w path @ concat (map (\<lambda>chunk. strip chunk @ [10]) chunks))
            \<and> (\<forall>q. q \<noteq> path \<longrightarrow> files w' q = files w q)
            \<and> stdout w' = stdout w \<and> network w' = network w)"
    using assms by (simp add: save_chunks_to_vault_def vault_lines_def)
  have bad: "\<not> list_all utf8_encodable (vault_lines chunks) \<longrightarrow>
          save_chunks_to_vault L chunks w = Inl UnicodeEncodeError"
    using assms by (simp add: save_chunks_to_vault_def)
  have own: "\<forall>x max_length. list_all utf8_encodable (vault_lines (chunk_text x max_length))
            \<and> (\<forall>chunk\<in>set (chunk_text x max_length). 10 \<notin> set (strip chunk))"
    using chunk_text_encodable chunk_text_no_newline by blast
  show ?thesis by (rule conjI[OF ok conjI[OF bad conjI[OF lines own]]])
qed

theorem save_chunks_to_vault_appends_witness:
  "getenv (example_lib (Leaf plain_part)) (py ''VAULT_FILENAME'') = Some (py ''vault.txt'')
   \<and> py ''vault.txt'' \<noteq> []
   \<and> list_all utf8_encodable (vault_lines [py ''One. '', py ''Two. ''])
   \<and> 10 \<notin> set (strip (py ''One. '')) \<and> 10 \<notin> set (strip (py ''Two. ''))
   \<and> old_content vault_world (py ''vault.txt'') = py ''old'' @ [10]
   \<and> (\<exists>w'. save_chunks_to_vault (example_lib (Leaf plain_part)) [py ''One. '', py ''Two. ''] vault_world = Inr w'
        \<and> files w' (py ''vault.txt'') = Some (py ''old'' @ [10] @ py ''One.'' @ [10] @ py ''Two.'' @ [10])
        \<and> file_lines (py ''One.'' @ [10] @ py ''Two.'' @ [10]) = [py ''One.'', py ''Two.''])
   \<and> \<not> list_all utf8_encodable (vault_lines [[55296]])
   \<and> save_chunks_to_vault (example_lib (Leaf plain_part)) [[55296]] vault_world = Inl UnicodeEncodeError"
proof -
  let ?L = "example_lib (Leaf plain_part)"
  let ?chunks = "[py ''One. '', py ''Two. '']"
  have h: "getenv ?L (py ''VAULT_FILENAME'') = Some (py ''vault.txt'')"
    by (simp add: example_lib_def example_env_def py_def)
  have ne: "py ''vault.txt'' \<noteq> []" by (simp add: py_def)
  have st: "strip (py ''One. '') = py ''One.''" "strip (py ''Two. '') = py ''Two.''"
    by (simp_all add: py_def strip_def is_space_def)
  have e: "list_all utf8_encodable (vault_lines ?chunks)"
    by (simp add: vault_lines_def st) (simp add: py_def utf8_encodable_def)
  have n1: "10 \<notin> set (strip (py ''One. ''))" and n2: "10 \<notin> set (strip (py ''Two. ''))"
    unfolding st by (simp_all add: py_def)
  have s: "concat (map (\<lambda>chunk. strip chunk @ [10]) ?chunks) = py ''One.'' @ [10] @ py ''Two.'' @ [10]"
    by (simp add: st)
  have o: "old_content vault_world (py ''vault.txt'') = py ''old'' @ [10]"
    by (simp add: old_content_def vault_world_def)
  note inst = save_chunks_to_vault_appends[OF h ne, of ?chunks vault_world]
  from mp[OF conjunct1[OF inst] e] obtain w' where
    w': "save_chunks_to_vault ?L ?chunks vault_world = Inr w'"
      "files w' (py ''vault.txt'')
         = Some (old_content vault_world (py ''vault.txt'') @ concat (map (\<lambda>chunk. strip chunk @ [10]) ?chunks))"
    by blast
  have "\<forall>chunk\<in>set ?chunks. 10 \<notin> set (strip chunk)" using n1 n2 by simp
  from mp[OF conjunct1[OF conjunct2[OF conjunct2[OF inst]]] this]
  have l: "file_lines (py ''One.'' @ [10] @ py ''Two.'' @ [10]) = [py ''One.'', py ''Two.'']"
    unfolding s by (simp add: st)
  from w'(2) have f: "files w' (py ''vault.txt'')
      = Some (py ''old'' @ [10] @ py ''One.'' @ [10] @ py ''Two.'' @ [10])"
    unfolding s o by simp
  from w'(1) f l have "\<exists>w'. save_chunks_to_vault ?L ?chunks vault_world = Inr w'
        \<and> files w' (py ''vault.txt'') = Some (py ''old'' @ [10] @ py ''One.'' @ [10] @ py ''Two.'' @ [10])
        \<and> file_lines (py ''One.'' @ [10] @ py ''Two.'' @ [10]) = [py ''One.'', py ''Two.'']"
    by blast
  then have good: "(\<exists>w'. save_chunks_to_vault ?L ?chunks vault_world = Inr w'
        \<and> files w' (py ''vault.txt'') = Some (py ''old'' @ [10] @ py ''One.'' @ [10] @ py ''Two.'' @ [10])
        \<and> file_lines (py ''One.'' @ [10] @ py ''Two.'' @ [10]) = [py ''One.'', py ''Two.''])" .
  have u: "\<not> list_all utf8_encodable (vault_lines [[55296]])"
    by (simp add: vault_lines_def strip_def is_space_def utf8_encodable_def)
  have r: "save_chunks_to_vault ?L [[55296]] vault_world = Inl UnicodeEncodeError"
    by (rule mp[OF conjunct1[OF conjunct2[OF
          save_chunks_to_vault_appends[OF h ne, of "[[55296]]" vault_world]]] u])
  show ?thesis
    by (rule conjI[OF h conjI[OF ne conjI[OF e conjI[OF n1 conjI[OF n2 conjI[OF o
          conjI[OF good conjI[OF u r]]]]]]]])
qed

text \<open>
  C9 as stated fails for a chunk with a newline inside, which is written as two lines,
  and for a chunk with a surrogate, which is not written at all.
\<close>

theorem save_chunks_to_vault_counterexample:
  "save_chunks_to_vault (example_lib (Leaf plain_part)) [[120, 10, 121]] empty_world
     = Inr (empty_world\<lparr>files := [py ''vault.txt'' \<mapsto> [120, 10, 121, 10]]\<rparr>)
   \<and> file_lines [120, 10, 121, 10] = [[120], [121]]
   \<and> save_chunks_to_vault (example_lib (Leaf plain_part)) [[55296]] empty_world
     = Inl UnicodeEncodeError"
  by (simp add: save_chunks_to_vault_def vault_lines_def old_content_def file_lines_def
      utf8_encodable_def strip_def is_space_def example_lib_def example_env_def empty_world_def py_def)

section \<open>The empty first chunk\<close>

text \<open>
  C10.  When the first sentence of the normalized text has at least \<open>max_length - 1\<close>
  characters, the first chunk of \<open>chunk_text\<close> is the empty string, and what
  \<open>save_chunks_to_vault\<close> appends to the vault begins with an empty line.
\<close>

theorem empty_first_chunk:
  assumes "max_length - 1 \<le> int (length (hd (split_sentences (normalize text))))"
  shows "\<exists>rest. chunk_text text max_length = [] # rest
      \<and> (\<forall>L w path. getenv L (py ''VAULT_FILENAME'') = Some path \<and> path \<noteq> [] \<longrightarrow>
           (\<exists>w'. save_chunks_to_vault L (chunk_text text max_length) w = Inr w'
              \<and> files w' path = Some (old_content w path @ [10] @ vault_lines rest)))"
proof -
  obtain s ss where ss: "split_sentences (normalize text) = s # ss"
    using split_sentences_nonempty[of "normalize text"] by (cases "split_sentences (normalize text)") auto
  let ?r = "chunk_loop max_length ss ([], s @ py '' '')"
  have guard: "\<not> int (length ([]::pystr)) + int (length s) + 1 < max_length"
    using assms ss by simp
  have "chunk_loop max_length (s # ss) ([], []) = chunk_loop max_length ss ([[]], s @ py '' '')"
    using guard by simp
  also have "\<dots> = ([[]] @ fst ?r, snd ?r)" by (rule chunk_loop_append)
  finally have loop: "chunk_loop max_length (split_sentences (normalize text)) ([], [])
      = ([] # fst ?r, snd ?r)" using ss by simp
  define rest where "rest = (if snd ?r \<noteq> [] then fst ?r @ [snd ?r] else fst ?r)"
  have ct: "chunk_text text max_length = [] # rest"
    by (simp add: chunk_text_def chunk_alt loop rest_def)
  have vl: "vault_lines ([] # rest) = [10] @ vault_lines rest"
    by (simp add: vault_lines_def strip_def)
  have enc: "list_all utf8_encodable (vault_lines ([] # rest))"
    using chunk_text_encodable[of "text" max_length] by (simp only: ct)
  show ?thesis
    using ct vl enc by (auto simp: save_chunks_to_vault_def)
qed

theorem empty_first_chunk_witness:
  "5 - 1 \<le> int (length (hd (split_sentences (normalize (py ''Hello.'')))))
   \<and> py ''Hello.'' \<noteq> []
   \<and> (\<exists>rest. chunk_text (py ''Hello.'') 5 = [] # rest
      \<and> (\<forall>L w path. getenv L (py ''VAULT_FILENAME'') = Some path \<and> path \<noteq> [] \<longrightarrow>
           (\<exists>w'. save_chunks_to_vault L (chunk_text (py ''Hello.'') 5) w = Inr w'
              \<and> files w' path = Some (old_content w path @ [10] @ vault_lines rest))))"
proof -
  have h: "5 - 1 \<le> int (length (hd (split_sentences (normalize (py ''Hello.'')))))"
    by (simp add: eval_text)
  have n: "py ''Hello.'' \<noteq> []" by (simp add: py_def)
  show ?thesis by (rule conjI[OF h conjI[OF n empty_first_chunk[OF h]]])
qed

section \<open>Attachments\<close>

lemmas eval_world =
  example_lib_def example_env_def empty_world_def ascii_decode_def plain_part_def mixed_part_def
  pdf_part_def truthy_def the_str_def bind_def get_content_maintype_def path_join_def py_def

text \<open>
  C7.  \<open>save_attachment\<close> leaves everything as it is when the part's main type is
  \<open>multipart\<close>, when the part has no \<open>Content-Disposition\<close> header (whatever its
  filename), and when the filename is missing or empty.  Whenever it does anything
  else, none of these holds.  In the remaining case it opens
  \<open>os.path.join(folder, email_id + "_" + filename)\<close>: when the file cannot be opened (the
  folder is missing) \<open>FileNotFoundError\<close> is raised, otherwise the payload is written
  there.  The path is \<open>folder/email_id_filename\<close> for a folder that is not empty and
  does not end in a slash and an identifier that does not begin with one.
\<close>

theorem save_attachment_rules:
  "(get_content_maintype p = py ''multipart'' \<or> content_disposition (headers p) = None
      \<longrightarrow> save_attachment L p email_id folder w = Inr w)
   \<and> (\<not> truthy (filename (headers p)) \<longrightarrow> save_attachment L p email_id folder w = Inr w)
   \<and> (save_attachment L p email_id folder w \<noteq> Inr w
      \<longrightarrow> get_content_maintype p \<noteq> py ''multipart'' \<and> content_disposition (headers p) \<noteq> None
          \<and> truthy (filename (headers p)))
   \<and> (get_content_maintype p \<noteq> py ''multipart'' \<and> content_disposition (headers p) \<noteq> None
        \<and> filename (headers p) = Some fname \<and> fname \<noteq> [] \<and> get_payload p = Some b
        \<and> can_open_wb L (path_join folder (email_id @ py ''_'' @ fname))
      \<longrightarrow> save_attachment L p email_id folder w =
            Inr (w\<lparr>files := (files w)(path_join folder (email_id @ py ''_'' @ fname) \<mapsto> b),
                   stdout := stdout w @ [Saved_attachment (path_join folder (email_id @ py ''_'' @ fname))]\<rparr>))
   \<and> (get_content_maintype p \<noteq> py ''multipart'' \<and> content_disposition (headers p) \<noteq> None
        \<and> filename (headers p) = Some fname \<and> fname \<noteq> []
        \<and> \<not> can_open_wb L (path_join folder (email_id @ py ''_'' @ fname))
      \<longrightarrow> save_attachment L p email_id folder w = Inl FileNotFoundError)
   \<and> (folder \<noteq> [] \<and> last folder \<noteq> 47 \<and> (email_id = [] \<or> hd email_id \<noteq> 47)
      \<longrightarrow> path_join folder (email_id @ py ''_'' @ fname) = folder @ py ''/'' @ email_id @ py ''_'' @ fname)"
proof -
  have skip: "get_content_maintype p = py ''multipart'' \<or> content_disposition (headers p) = None
      \<longrightarrow> save_attachment L p email_id folder w = Inr w"
    by (auto simp: save_attachment_def)
  have nofile: "\<not> truthy (filename (headers p)) \<longrightarrow> save_attachment L p email_id folder w = Inr w"
    by (auto simp: save_attachment_def truthy_def split: option.splits)
  have only: "save_attachment L p email_id folder w \<noteq> Inr w
      \<longrightarrow> get_content_maintype p \<noteq> py ''multipart'' \<and> content_disposition (headers p) \<noteq> None
          \<and> truthy (filename (headers p))"
    using skip nofile by blast
  have writes: "get_content_maintype p \<noteq> py ''multipart'' \<and> content_disposition (headers p) \<noteq> None
        \<and> filename (headers p) = Some fname \<and> fname \<noteq> [] \<and> get_payload p = Some b
        \<and> can_open_wb L (path_join folder (email_id @ py ''_'' @ fname))
      \<longrightarrow> save_attachment L p email_id folder w =
            Inr (w\<lparr>files := (files w)(path_join folder (email_id @ py ''_'' @ fname) \<mapsto> b),
                   stdout := stdout w @ [Saved_attachment (path_join folder (email_id @ py ''_'' @ fname))]\<rparr>)"
    by (auto simp: save_attachment_def Let_def)
  have missing: "get_content_maintype p \<noteq> py ''multipart'' \<and> content_disposition (headers p) \<noteq> None
        \<and> filename (headers p) = Some fname \<and> fname \<noteq> []
        \<and> \<not> can_open_wb L (path_join folder (email_id @ py ''_'' @ fname))
      \<longrightarrow> save_attachment L p email_id folder w = Inl FileNotFoundError"
    by (auto simp: save_attachment_def Let_def)
  have path: "folder \<noteq> [] \<and> last folder \<noteq> 47 \<and> (email_id = [] \<or> hd email_id \<noteq> 47)
      \<longrightarrow> path_join folder (email_id @ py ''_'' @ fname) = folder @ py ''/'' @ email_id @ py ''_'' @ fname"
    by (cases email_id) (auto simp: path_join_def py_def)
  show ?thesis
    by (rule conjI[OF skip conjI[OF nofile conjI[OF only conjI[OF writes conjI[OF missing path]]]]])
qed

theorem save_attachment_rules_witness:
  "content_disposition (headers (Leaf (pdf_part None) [37, 80])) = None
   \<and> truthy (filename (headers (Leaf (pdf_part None) [37, 80])))
   \<and> save_attachment (example_lib (Leaf plain_part)) (Leaf (pdf_part None) [37, 80]) (py ''7'')
         (py ''/home/user/attachments'') empty_world
       = Inr empty_world
   \<and> can_open_wb (example_lib (Leaf plain_part)) (py ''/home/user/attachments/7_a.pdf'')
   \<and> save_attachment (example_lib (Leaf plain_part)) (Leaf (pdf_part (Some (py ''attachment''))) [37, 80])
         (py ''7'') (py ''/home/user/attachments'') empty_world
       = Inr (empty_world\<lparr>files := (files empty_world)(py ''/home/user/attachments/7_a.pdf'' \<mapsto> [37, 80]),
                stdout := stdout empty_world @ [Saved_attachment (py ''/home/user/attachments/7_a.pdf'')]\<rparr>)
   \<and> \<not> can_open_wb (example_lib (Leaf plain_part)) (py ''nodir/7_a.pdf'')
   \<and> save_attachment (example_lib (Leaf plain_part)) (Leaf (pdf_part (Some (py ''attachment''))) [37, 80])
         (py ''7'') (py ''nodir'') empty_world
       = Inl FileNotFoundError"
proof -
  let ?L = "example_lib (Leaf plain_part)"
  let ?skipped = "Leaf (pdf_part None) [37, 80]"
  let ?saved = "Leaf (pdf_part (Some (py ''attachment''))) [37, 80]"
  let ?dir = "py ''/home/user/attachments''"
  note skipped = save_attachment_rules[of ?skipped ?L "py ''7''" ?dir empty_world]
  note saved = save_attachment_rules[of ?saved ?L "py ''7''" ?dir empty_world "py ''a.pdf''" "[37, 80]"]
  note nodir = save_attachment_rules[of ?saved ?L "py ''7''" "py ''nodir''" empty_world "py ''a.pdf''" "[37, 80]"]
  have h1: "content_disposition (headers ?skipped) = None" by (simp add: pdf_part_def)
  have h2: "truthy (filename (headers ?skipped))" by (simp add: pdf_part_def truthy_def py_def)
  have part: "get_content_maintype ?saved \<noteq> py ''multipart'' \<and> content_disposition (headers ?saved) \<noteq> None
        \<and> filename (headers ?saved) = Some (py ''a.pdf'') \<and> py ''a.pdf'' \<noteq> []"
    by (simp add: pdf_part_def get_content_maintype_def py_def)
  have h4: "?dir \<noteq> [] \<and> last ?dir \<noteq> 47 \<and> (py ''7'' = [] \<or> hd (py ''7'') \<noteq> 47)"
    by (simp add: py_def)
  have h5: "py ''nodir'' \<noteq> [] \<and> last (py ''nodir'') \<noteq> 47 \<and> (py ''7'' = [] \<or> hd (py ''7'') \<noteq> 47)"
    by (simp add: py_def)
  have p: "?dir @ py ''/'' @ py ''7'' @ py ''_'' @ py ''a.pdf'' = py ''/home/user/attachments/7_a.pdf''"
    by (simp add: py_def)
  have q: "py ''nodir'' @ py ''/'' @ py ''7'' @ py ''_'' @ py ''a.pdf'' = py ''nodir/7_a.pdf''"
    by (simp add: py_def)
  have c1: "can_open_wb ?L (py ''/home/user/attachments/7_a.pdf'')"
    by (simp add: example_lib_def py_def)
  have c2: "\<not> can_open_wb ?L (py ''nodir/7_a.pdf'')"
    by (simp add: example_lib_def py_def)
  have a: "save_attachment ?L ?skipped (py ''7'') ?dir empty_world = Inr empty_world"
    by (rule mp[OF conjunct1[OF skipped] disjI2[OF h1]])
  have pj: "path_join ?dir (py ''7'' @ py ''_'' @ py ''a.pdf'') = py ''/home/user/attachments/7_a.pdf''"
    using mp[OF conjunct2[OF conjunct2[OF conjunct2[OF conjunct2[OF conjunct2[OF saved]]]]] h4] p
    by (rule trans)
  have pn: "path_join (py ''nodir'') (py ''7'' @ py ''_'' @ py ''a.pdf'') = py ''nodir/7_a.pdf''"
    using mp[OF conjunct2[OF conjunct2[OF conjunct2[OF conjunct2[OF conjunct2[OF nodir]]]]] h5] q
    by (rule trans)
  have h3: "get_content_maintype ?saved \<noteq> py ''multipart'' \<and> content_disposition (headers ?saved) \<noteq> None
        \<and> filename (headers ?saved) = Some (py ''a.pdf'') \<and> py ''a.pdf'' \<noteq> [] \<and> get_payload ?saved = Some [37, 80]
        \<and> can_open_wb ?L (path_join ?dir (py ''7'' @ py ''_'' @ py ''a.pdf''))"
    using part c1 unfolding pj by simp
  have h6: "get_content_maintype ?saved \<noteq> py ''multipart'' \<and> content_disposition (headers ?saved) \<noteq> None
        \<and> filename (headers ?saved) = Some (py ''a.pdf'') \<and> py ''a.pdf'' \<noteq> []
        \<and> \<not> can_open_wb ?L (path_join (py ''nodir'') (py ''7'' @ py ''_'' @ py ''a.pdf''))"
    using part c2 unfolding pn by simp
  have b: "save_attachment ?L ?saved (py ''7'') ?dir empty_world
       = Inr (empty_world\<lparr>files := (files empty_world)(py ''/home/user/attachments/7_a.pdf'' \<mapsto> [37, 80]),
                stdout := stdout empty_world @ [Saved_attachment (py ''/home/user/attachments/7_a.pdf'')]\<rparr>)"
    using mp[OF conjunct1[OF conjunct2[OF conjunct2[OF conjunct2[OF saved]]]] h3] unfolding pj .
  have c: "save_attachment ?L ?saved (py ''7'') (py ''nodir'') empty_world = Inl FileNotFoundError"
    by (rule mp[OF conjunct1[OF conjunct2[OF conjunct2[OF conjunct2[OF conjunct2[OF nodir]]]]] h6])
  show ?thesis
    by (rule conjI[OF h1 conjI[OF h2 conjI[OF a conjI[OF c1 conjI[OF b conjI[OF c2 c]]]]]])
qed

section \<open>Decoding a body part\<close>

text \<open>
  C4.  A message that is not multipart, of type \<open>text/plain\<close> and charset \<open>us-ascii\<close>,
  whose payload is the single byte 255: lines 69 and 71 decode without
  \<open>errors='ignore'\<close>, and \<open>UnicodeDecodeError\<close> leaves \<open>save_plain_text_content\<close>.  The
  same part inside a multipart message goes through lines 63 and 65, which pass
  \<open>errors='ignore'\<close>: the byte is dropped and the call returns.
\<close>

theorem strict_decode_error_propagates:
  "save_plain_text_content (example_lib (Leaf plain_part)) [255] (py ''1'') empty_world
     = Inl UnicodeDecodeError
   \<and> save_plain_text_content (example_lib (\<lambda>raw. Multipart mixed_part [Leaf plain_part raw]))
       [255] (py ''1'') empty_world
     = Inr ([], empty_world\<lparr>files := [py ''vault.txt'' \<mapsto> []]\<rparr>)"
proof -
  have c: "chunk_text [] 1000 = []" by (simp add: eval_text)
  have strict: "save_plain_text_content (example_lib (Leaf plain_part)) [255] (py ''1'') empty_world
     = Inl UnicodeDecodeError"
    by (simp add: save_plain_text_content_def extract_text_def decode_payload_def eval_world)
  have lossy: "save_plain_text_content (example_lib (\<lambda>raw. Multipart mixed_part [Leaf plain_part raw]))
       [255] (py ''1'') empty_world
     = Inr ([], empty_world\<lparr>files := [py ''vault.txt'' \<mapsto> []]\<rparr>)"
    by (simp add: save_plain_text_content_def extract_text_def decode_payload_def c
        save_chunks_to_vault_def vault_lines_def old_content_def eval_world)
  show ?thesis using strict lossy by (rule conjI)
qed

section \<open>Date arguments\<close>

text \<open>
  C8, as the code has it.  A date argument counts as given when it is a non-empty
  string.  When exactly one of the two is given, or both are given and the date parser
  rejects one of them, \<open>main\<close> returns without any network event and without touching
  a file; when the environment is complete its last message is the usage error.
\<close>

theorem main_usage_abort:
  assumes "truthy (startdate a) \<noteq> truthy (enddate a)
         \<or> (truthy (startdate a) \<and> truthy (enddate a)
            \<and> (reformat_date L (the_str (startdate a)) = None
               \<or> reformat_date L (the_str (enddate a)) = None))"
  shows "\<exists>w'. main L a w = Inr w' \<and> network w' = network w \<and> files w' = files w
      \<and> (fst (check_env L w) \<longrightarrow>
           stdout w' = stdout w @ [Both_dates_required]
         \<or> stdout w' = stdout w @ [Date_format_incorrect])"
proof (cases "fst (check_env L w)")
  case False
  then show ?thesis
    by (auto simp: main_def check_env_def Let_def split: if_splits)
next
  case True
  then have ce: "check_env L w = (True, w)"
    by (auto simp: check_env_def split: if_splits)
  from assms show ?thesis
    by (auto simp: main_def ce split: option.splits)
qed

theorem main_usage_abort_witness:
  "truthy (startdate \<lparr>keyword = [], startdate = Some (py ''01.02.2020''), enddate = None\<rparr>)
     \<noteq> truthy (enddate \<lparr>keyword = [], startdate = Some (py ''01.02.2020''), enddate = None\<rparr>)
   \<and> fst (check_env (example_lib (Leaf plain_part)) empty_world)
   \<and> (\<exists>w'. main (example_lib (Leaf plain_part))
              \<lparr>keyword = [], startdate = Some (py ''01.02.2020''), enddate = None\<rparr> empty_world = Inr w'
        \<and> network w' = [] \<and> stdout w' = [Both_dates_required])"
proof -
  let ?a = "\<lparr>keyword = [], startdate = Some (py ''01.02.2020''), enddate = None\<rparr>"
  have h: "truthy (startdate ?a) \<noteq> truthy (enddate ?a)" by (simp add: truthy_def py_def)
  have c: "fst (check_env (example_lib (Leaf plain_part)) empty_world)"
    by (simp add: check_env_def eval_world)
  have t: "truthy (startdate ?a)" "\<not> truthy (enddate ?a)" by (simp_all add: truthy_def py_def)
  from main_usage_abort[of ?a "example_lib (Leaf plain_part)" empty_world, OF disjI1[OF h]] c
  obtain w' where w': "main (example_lib (Leaf plain_part)) ?a empty_world = Inr w'"
      "network w' = network empty_world"
      "stdout w' = stdout empty_world @ [Both_dates_required]
         \<or> stdout w' = stdout empty_world @ [Date_format_incorrect]"
    by blast
  have m: "main (example_lib (Leaf plain_part)) ?a empty_world
      = Inr (empty_world\<lparr>stdout := [Both_dates_required]\<rparr>)"
    using t by (simp add: main_def check_env_def eval_world)
  from w' m have "network w' = [] \<and> stdout w' = [Both_dates_required]"
    by (auto simp: empty_world_def)
  with w'(1) h c show ?thesis by blast
qed

text \<open>
  C8 as stated fails when a date is supplied as the empty string: \<open>--startdate ""\<close>
  alone is one argument of the two, yet both tests of lines 145 and 152 read it as
  absent and \<open>main\<close> goes on to connect, log in and search.
\<close>

theorem main_empty_date_counterexample:
  "main (example_lib (Leaf plain_part)) \<lparr>keyword = [], startdate = Some [], enddate = None\<rparr> empty_world
     = Inr \<lparr>files = Map.empty,
            stdout = [Using_criteria (py ''Gmail'') (py ''ALL''), Found_emails 0 (py ''Gmail'')],
            network = [Connect (py ''imap.gmail.com''), Login (Some (py ''user'')) (Some (py ''secret'')),
                       Select (py ''inbox''), Search (py ''ALL''), Logout]\<rparr>"
  by (simp add: main_def check_env_def run_session_def search_and_process_emails_def
      search_criteria_def Let_def eval_world)
section \<open>Lengths\<close>

lemma re_sub_length_le:
  "(\<forall>t. m t \<noteq> 0 \<longrightarrow> length repl \<le> m t \<and> m t \<le> length t) \<Longrightarrow>
     length (re_sub m repl s) \<le> length s"
proof (induction m repl s rule: re_sub.induct)
  case (1 m repl)
  then show ?case by simp
next
  case (2 m repl c cs)
  show ?case
  proof (cases "m (c # cs) = 0")
    case True
    with 2(1)[OF True 2(3)] show ?thesis by simp
  next
    case False
    with 2(3) have b: "length repl \<le> m (c # cs)" "m (c # cs) \<le> length (c # cs)" by blast+
    from 2(2)[OF False 2(3)] have "length (re_sub m repl (drop (m (c # cs)) (c # cs)))
        \<le> length (c # cs) - m (c # cs)" by simp
    with b False show ?thesis by simp
  qed
qed

lemma re_sub_length_less:
  "(\<forall>t. m t \<noteq> 0 \<longrightarrow> length repl < m t \<and> m t \<le> length t) \<Longrightarrow> \<not> no_match m s \<Longrightarrow>
     length (re_sub m repl s) < length s"
proof (induction m repl s rule: re_sub.induct)
  case (1 m repl)
  then show ?case by simp
next
  case (2 m repl c cs)
  show ?case
  proof (cases "m (c # cs) = 0")
    case True
    with 2(4) have "\<not> no_match m cs" by simp
    with 2(1)[OF True 2(3)] True show ?thesis by simp
  next
    case False
    with 2(3) have b: "length repl < m (c # cs)" "m (c # cs) \<le> length (c # cs)" by blast+
    have "\<forall>t. m t \<noteq> 0 \<longrightarrow> length repl \<le> m t \<and> m t \<le> length t"
      using 2(3) by (simp add: less_imp_le)
    then have "length (re_sub m repl (drop (m (c # cs)) (c # cs)))
        \<le> length (drop (m (c # cs)) (c # cs))" by (rule re_sub_length_le)
    with b False show ?thesis by simp
  qed
qed

lemma m_run_bounds: "m_run p k t \<noteq> 0 \<Longrightarrow> k \<le> m_run p k t \<and> m_run p k t \<le> length t"
  using length_takeWhile_le[of p t] by (auto simp: m_run_def Let_def split: if_splits)

lemma m_quote_bounds: "m_quote t \<noteq> 0 \<Longrightarrow> 2 \<le> m_quote t \<and> m_quote t \<le> length t"
proof -
  let ?p = "takeWhile (\<lambda>c. is_space c \<or> c = 62) t"
  assume "m_quote t \<noteq> 0"
  then have "2 \<le> length (filter (\<lambda>c. c = 62) ?p)" "m_quote t = length ?p"
    by (auto simp: m_quote_def Let_def split: if_splits)
  moreover have "length (filter (\<lambda>c. c = 62) ?p) \<le> length ?p" by (rule length_filter_le)
  moreover have "length ?p \<le> length t" by (rule length_takeWhile_le)
  ultimately show ?thesis by linarith
qed

lemma m_url_bounds: "m_url t \<noteq> 0 \<Longrightarrow> m_url t \<le> length t"
proof -
  assume "m_url t \<noteq> 0"
  then obtain l r where "t = l @ r" "m_url t = length l + nonspace_run r"
    using url_shape by blast
  then show ?thesis using length_takeWhile_le[of "\<lambda>c. \<not> is_space c" r]
    by (simp add: nonspace_run_def)
qed

lemma run_sub_length: "Suc 0 \<le> k \<Longrightarrow> length (re_sub (m_run p k) [r] s) \<le> length s"
  by (rule re_sub_length_le) (use m_run_bounds in fastforce)

lemma url_sub_length: "length (re_sub m_url [] s) \<le> length s"
  by (rule re_sub_length_le) (use m_url_bounds in auto)

lemma quote_sub_length: "\<not> no_match m_quote s \<Longrightarrow> length (re_sub m_quote [32] s) < length s"
  by (rule re_sub_length_less) (use m_quote_bounds in fastforce)

lemma quote_pair_matches: "sublist [62, 32, 62] y \<Longrightarrow> \<not> no_match m_quote y"
proof
  assume "sublist [62, 32, 62] y" and nm: "no_match m_quote y"
  then obtain t' where t': "suffix t' y" "t' \<noteq> []" "prefix [62, 32, 62] t'"
    using sublist_suffix_prefix[of "[62, 32, 62]" y] by auto
  from t'(3) obtain r where "t' = 62 # 32 # 62 # r" by (auto simp: prefix_def)
  then have "m_quote t' \<noteq> 0" by (simp add: m_quote_def Let_def space_is_space)
  with no_match_suffix[OF nm t'(1,2)] show False by simp
qed

text \<open>A text with two \<open>>\<close> separated by a space gets shorter when it is normalized.\<close>

lemma normalize_shrinks:
  assumes "sublist [62, 32, 62] y" "\<forall>c\<in>set y. c < 128"
  shows "length (normalize y) < length y"
proof -
  have f: "filter (\<lambda>c. c < 128) y = y" using assms(2) by simp
  let ?s2 = "re_sub m_quote [32] y"
  let ?s3 = "re_sub (m_run (\<lambda>c. c = 45) 3) [32] ?s2"
  let ?s4 = "re_sub (m_run (\<lambda>c. c = 95) 3) [32] ?s3"
  let ?s5 = "re_sub (m_run is_space 2) [32] ?s4"
  let ?s6 = "re_sub m_url [] ?s5"
  let ?s7 = "re_sub (m_run is_space (Suc 0)) [32] ?s6"
  have "length (normalize y) \<le> length ?s7"
    unfolding normalize_steps f by (rule length_strip_le)
  also have "\<dots> \<le> length ?s6" by (rule run_sub_length) simp
  also have "\<dots> \<le> length ?s5" by (rule url_sub_length)
  also have "\<dots> \<le> length ?s4" by (rule run_sub_length) simp
  also have "\<dots> \<le> length ?s3" by (rule run_sub_length) simp
  also have "\<dots> \<le> length ?s2" by (rule run_sub_length) simp
  also have "\<dots> < length y" by (rule quote_sub_length) (rule quote_pair_matches[OF assms(1)])
  finally show ?thesis .
qed
section \<open>Sentences of a tidy text\<close>

lemma terminal_not_space: "is_terminal c \<Longrightarrow> \<not> is_space c"
  by (auto simp: is_terminal_def is_space_def)

lemma dropWhile_space_collapsed:
  assumes "collapsed (32 # r)"
  shows "dropWhile (\<lambda>x. x = 32) (32 # r) = r"
proof -
  from assms have "r = [] \<or> \<not> is_space (hd r)" by (simp add: space_is_space)
  then have "r = [] \<or> hd r \<noteq> 32" using space_is_space by auto
  then show ?thesis by (cases r) auto
qed

lemma join_spaces_Cons: "l \<noteq> [] \<Longrightarrow> join_spaces (s # l) = s @ [32] @ join_spaces l"
  by (cases l) auto

lemma join_spaces_push: "join_spaces ((c # p) # ps) = c # join_spaces (p # ps)"
  by (cases ps) auto

text \<open>Splitting a collapsed text loses only the single spaces between its sentences.\<close>

lemma join_split: "collapsed t \<Longrightarrow> join_spaces (split_sentences t) = t"
proof (induction t rule: split_sentences.induct)
  case 1
  then show ?case by simp
next
  case (2 c cs)
  show ?case
  proof (cases "is_terminal c \<and> cs \<noteq> [] \<and> hd cs = 32")
    case True
    then obtain r where cs: "cs = 32 # r" by (cases cs) auto
    from "2.prems" cs have col: "collapsed (32 # r)" by simp
    then have d: "dropWhile (\<lambda>x. x = 32) cs = r" unfolding cs by (rule dropWhile_space_collapsed)
    from col have "collapsed r" by simp
    with "2.IH"(1)[OF True] d have "join_spaces (split_sentences r) = r" by simp
    with True d cs show ?thesis
      by (simp add: join_spaces_Cons split_sentences_nonempty)
  next
    case False
    from "2.prems" have "collapsed cs" by simp
    with "2.IH"(2)[OF False] have ih: "join_spaces (split_sentences cs) = cs" by simp
    obtain p ps where s: "split_sentences cs = p # ps"
      using split_sentences_nonempty[of cs] by (cases "split_sentences cs") auto
    have "split_sentences (c # cs) = (c # p) # ps" using False s by auto
    with ih s show ?thesis by (simp add: join_spaces_push)
  qed
qed

lemma sentences_trimmed:
  "collapsed t \<Longrightarrow> t \<noteq> [] \<Longrightarrow> \<not> is_space (last t) \<Longrightarrow>
     \<exists>p ps. split_sentences t = p # ps \<and> p \<noteq> [] \<and> hd p = hd t \<and> \<not> is_space (last p)
        \<and> (\<forall>q\<in>set ps. q \<noteq> [] \<and> \<not> is_space (hd q) \<and> \<not> is_space (last q))"
proof (induction t rule: split_sentences.induct)
  case 1
  then show ?case by simp
next
  case (2 c cs)
  show ?case
  proof (cases "is_terminal c \<and> cs \<noteq> [] \<and> hd cs = 32")
    case True
    then obtain r where cs: "cs = 32 # r" by (cases cs) auto
    from "2.prems"(1) cs have col: "collapsed (32 # r)" by simp
    then have d: "dropWhile (\<lambda>x. x = 32) cs = r" unfolding cs by (rule dropWhile_space_collapsed)
    from "2.prems"(3) cs have r: "r \<noteq> []" by (auto simp: space_is_space)
    with col have hr: "\<not> is_space (hd r)" and cr: "collapsed r" by (auto simp: space_is_space)
    from "2.prems"(3) cs r have lr: "\<not> is_space (last r)" by simp
    from "2.IH"(1)[OF True] d cr r lr
    obtain p ps where ih: "split_sentences r = p # ps" "p \<noteq> []" "hd p = hd r" "\<not> is_space (last p)"
        "\<forall>q\<in>set ps. q \<noteq> [] \<and> \<not> is_space (hd q) \<and> \<not> is_space (last q)"
      by auto
    have "split_sentences (c # cs) = [c] # p # ps" using True d ih(1) by simp
    moreover have "\<not> is_space c" using True terminal_not_space by blast
    ultimately show ?thesis using ih hr by simp
  next
    case False
    show ?thesis
    proof (cases cs)
      case Nil
      with "2.prems" show ?thesis by simp
    next
      case (Cons x xs)
      with "2.prems" have "collapsed cs" "cs \<noteq> []" "\<not> is_space (last cs)" by auto
      with "2.IH"(2)[OF False]
      obtain p ps where ih: "split_sentences cs = p # ps" "p \<noteq> []" "\<not> is_space (last p)"
          "\<forall>q\<in>set ps. q \<noteq> [] \<and> \<not> is_space (hd q) \<and> \<not> is_space (last q)"
        by auto
      have "split_sentences (c # cs) = (c # p) # ps" using False ih(1) by auto
      with ih show ?thesis by simp
    qed
  qed
qed

lemma tidy_sentences:
  assumes "tidy t" "s \<in> set (split_sentences t)"
  shows "strip (s @ [32]) = s"
proof (cases "t = []")
  case True
  with assms(2) show ?thesis by (simp add: strip_def space_is_space)
next
  case False
  with assms(1) have "collapsed t" "\<not> is_space (hd t)" "\<not> is_space (last t)"
    by (auto simp: tidy_def)
  with sentences_trimmed[OF this(1) False this(3)] assms(2)
  have "\<not> is_space (hd s) \<and> \<not> is_space (last s)" by auto
  then show ?thesis by (simp add: strip_sentence)
qed

text \<open>The loop hands every sentence on, in order, each followed by a space or by nothing.\<close>

lemma chunk_loop_concat:
  assumes "\<forall>s\<in>set ss. strip (s @ [32]) = s"
  shows "\<exists>bs. length bs = length ss
      \<and> concat (fst (chunk_loop ml ss (cs, cur))) @ snd (chunk_loop ml ss (cs, cur))
        = concat cs @ cur @ concat (map2 (\<lambda>s b. if b then s @ [32] else s) ss bs)"
  using assms
proof (induction ss arbitrary: cs cur)
  case Nil
  then show ?case by simp
next
  case (Cons s ss)
  then have s: "strip (s @ [32]) = s" and rest: "\<forall>s\<in>set ss. strip (s @ [32]) = s" by auto
  show ?case
  proof (cases "int (length cur) + int (length s) + 1 < ml")
    case True
    from Cons.IH[OF rest, of cs "cur @ s"] obtain bs where
      bs: "length bs = length ss"
        "concat (fst (chunk_loop ml ss (cs, cur @ s))) @ snd (chunk_loop ml ss (cs, cur @ s))
          = concat cs @ (cur @ s) @ concat (map2 (\<lambda>s b. if b then s @ [32] else s) ss bs)"
      by blast
    show ?thesis
      by (rule exI[of _ "False # bs"]) (use True s bs in \<open>simp add: py_space\<close>)
  next
    case False
    from Cons.IH[OF rest, of "cs @ [cur]" "s @ [32]"] obtain bs where
      bs: "length bs = length ss"
        "concat (fst (chunk_loop ml ss (cs @ [cur], s @ [32]))) @ snd (chunk_loop ml ss (cs @ [cur], s @ [32]))
          = concat (cs @ [cur]) @ (s @ [32]) @ concat (map2 (\<lambda>s b. if b then s @ [32] else s) ss bs)"
      by blast
    show ?thesis
      by (rule exI[of _ "True # bs"]) (use False bs in \<open>simp add: py_space\<close>)
  qed
qed

lemma concat_chunk:
  "concat (chunk t ml)
     = concat (fst (chunk_loop ml (split_sentences t) ([], [])))
       @ snd (chunk_loop ml (split_sentences t) ([], []))"
  by (simp add: chunk_alt Let_def)

lemma filter_join_spaces:
  fixes ss :: "pystr list"
  shows "filter (\<lambda>c. c \<noteq> 32) (join_spaces ss) = filter (\<lambda>c. c \<noteq> 32) (concat ss)"
  by (induction ss rule: join_spaces.induct) auto

lemma filter_spaced:
  fixes ss :: "pystr list"
  shows "length bs = length ss \<Longrightarrow>
     filter (\<lambda>c. c \<noteq> 32) (concat (map2 (\<lambda>s b. if b then s @ [32] else s) ss bs))
       = filter (\<lambda>c. c \<noteq> 32) (concat ss)"
proof (induction ss arbitrary: bs)
  case Nil
  then show ?case by simp
next
  case (Cons s ss)
  then obtain b bs' where "bs = b # bs'" "length bs' = length ss" by (cases bs) auto
  with Cons.IH[of bs'] show ?case by simp
qed

section \<open>The chunks and the sentences\<close>

text \<open>
  C6.  The normalized text is its sentences joined by single spaces.  The chunks of
  \<open>chunk_text\<close>, concatenated, are these sentences in their order, each one unchanged
  and followed either by one space or by nothing; so with the spaces left out the
  chunks spell the normalized text.
\<close>

theorem chunks_reproduce_sentences:
  "join_spaces (split_sentences (normalize x)) = normalize x
   \<and> (\<exists>bs. length bs = length (split_sentences (normalize x))
        \<and> concat (chunk_text x max_length)
          = concat (map2 (\<lambda>s b. if b then s @ py '' '' else s) (split_sentences (normalize x)) bs))
   \<and> filter (\<lambda>c. c \<noteq> 32) (concat (chunk_text x max_length)) = filter (\<lambda>c. c \<noteq> 32) (normalize x)"
proof -
  let ?t = "normalize x"
  let ?ss = "split_sentences ?t"
  have t: "tidy ?t" by (rule normalize_tidy)
  then have col: "collapsed ?t" by (simp add: tidy_def)
  have j: "join_spaces ?ss = ?t" by (rule join_split[OF col])
  have "\<forall>s\<in>set ?ss. strip (s @ [32]) = s" using tidy_sentences[OF t] by blast
  from chunk_loop_concat[OF this, of max_length "[]" "[]"] obtain bs where
    bs: "length bs = length ?ss"
      "concat (chunk_text x max_length) = concat (map2 (\<lambda>s b. if b then s @ [32] else s) ?ss bs)"
    by (auto simp: chunk_text_def concat_chunk)
  have "filter (\<lambda>c. c \<noteq> 32) (concat (chunk_text x max_length)) = filter (\<lambda>c. c \<noteq> 32) (concat ?ss)"
    unfolding bs(2) by (rule filter_spaced[OF bs(1)])
  also have "\<dots> = filter (\<lambda>c. c \<noteq> 32) (join_spaces ?ss)" by (rule filter_join_spaces[symmetric])
  also have "\<dots> = filter (\<lambda>c. c \<noteq> 32) ?t" by (simp only: j)
  finally have f: "filter (\<lambda>c. c \<noteq> 32) (concat (chunk_text x max_length)) = filter (\<lambda>c. c \<noteq> 32) ?t" .
  from bs have "\<exists>bs. length bs = length ?ss
        \<and> concat (chunk_text x max_length)
          = concat (map2 (\<lambda>s b. if b then s @ py '' '' else s) ?ss bs)"
    unfolding py_space by blast
  with j f show ?thesis by blast
qed
section \<open>The output of normalization\<close>

lemma py_marks:
  "py ''>>'' = [62, 62]" "py ''> >'' = [62, 32, 62]" "py ''---'' = [45, 45, 45]"
  "py ''___'' = [95, 95, 95]" "py ''  '' = [32, 32]"
  by (simp_all add: py_def)

text \<open>
  C2, as the code has it.  The normalized text has only ASCII characters, no two
  adjacent \<open>>\<close>, no three adjacent \<open>-\<close> or \<open>_\<close>, no two adjacent spaces, and no
  \<open>http://\<close>, \<open>https://\<close> or \<open>www.\<close> followed by a character that is not whitespace.
\<close>

theorem normalize_output:
  "(\<forall>c\<in>set (normalize x). c < 128)
   \<and> \<not> sublist (py ''>>'') (normalize x)
   \<and> \<not> sublist (py ''---'') (normalize x)
   \<and> \<not> sublist (py ''___'') (normalize x)
   \<and> \<not> sublist (py ''  '') (normalize x)
   \<and> (\<forall>c. \<not> is_space c \<longrightarrow>
        \<not> sublist (py ''http://'' @ [c]) (normalize x)
      \<and> \<not> sublist (py ''https://'' @ [c]) (normalize x)
      \<and> \<not> sublist (py ''www.'' @ [c]) (normalize x))"
proof -
  have sp: "\<not> sublist (py ''  '') (normalize x)"
    unfolding py_marks using normalize_tidy[of x] by (simp add: tidy_def collapsed_no_two_spaces)
  have url: "\<forall>l c. url_lit l \<and> \<not> is_space c \<longrightarrow> \<not> sublist (l @ [c]) (normalize x)"
    using normalize_no_url[of x] by (simp only: url_free_iff)
  have "\<forall>c. \<not> is_space c \<longrightarrow>
        \<not> sublist (py ''http://'' @ [c]) (normalize x)
      \<and> \<not> sublist (py ''https://'' @ [c]) (normalize x)
      \<and> \<not> sublist (py ''www.'' @ [c]) (normalize x)"
    using url unfolding url_lit_def by blast
  with sp normalize_ascii[of x] normalize_no_quote_run[of x] normalize_no_dashes[of x]
    normalize_no_underscores[of x]
  show ?thesis unfolding py_marks by blast
qed

theorem normalize_output_witness:
  "\<not> is_space 100
   \<and> 97 \<in> set (normalize (py ''a >> b www.d e''))
   \<and> (97::nat) < 128
   \<and> \<not> sublist (py ''www.'' @ [100]) (normalize (py ''a >> b www.d e''))
   \<and> \<not> sublist (py ''>>'') (normalize (py ''a >> b www.d e''))"
proof -
  note out = normalize_output[of "py ''a >> b www.d e''"]
  have h1: "\<not> is_space 100" by (simp add: is_space_def)
  have h2: "97 \<in> set (normalize (py ''a >> b www.d e''))" by (simp add: eval_text)
  from out h2 have c1: "(97::nat) < 128" by blast
  from out h1 have c2: "\<not> sublist (py ''www.'' @ [100]) (normalize (py ''a >> b www.d e''))" by blast
  from out have c3: "\<not> sublist (py ''>>'') (normalize (py ''a >> b www.d e''))" by blast
  show ?thesis by (rule conjI[OF h1 conjI[OF h2 conjI[OF c1 conjI[OF c2 c3]]]])
qed

text \<open>
  C2 as stated fails.  The dashes between two \<open>>\<close> are replaced by a space after the
  quote markers have been handled, which leaves two \<open>>\<close> separated by a space; and
  \<open>www.\<close> or \<open>http://\<close> with nothing behind it is not matched by the URL pattern, whose
  \<open>\S+\<close> needs one character.
\<close>

theorem normalize_output_counterexample:
  "normalize (py ''>--->'') = py ''> >''
   \<and> normalize (py ''www.'') = py ''www.''
   \<and> normalize (py ''see http:// x'') = py ''see http:// x''"
  by (simp add: eval_text)

section \<open>Normalizing twice\<close>

text \<open>
  C3, as the code has it.  Normalizing a normalized text again changes nothing exactly
  when the normalized text has no two \<open>>\<close> separated by one space; when it has such a
  pair, the second pass gives a strictly shorter text.
\<close>

theorem normalize_idempotent:
  "(normalize (normalize x) = normalize x \<longleftrightarrow> \<not> sublist (py ''> >'') (normalize x))
   \<and> (sublist (py ''> >'') (normalize x)
        \<longrightarrow> length (normalize (normalize x)) < length (normalize x))"
proof -
  have shorter: "sublist (py ''> >'') (normalize x)
        \<longrightarrow> length (normalize (normalize x)) < length (normalize x)"
  proof
    assume "sublist (py ''> >'') (normalize x)"
    then have "sublist [62, 32, 62] (normalize x)" by (simp add: py_marks)
    from normalize_shrinks[OF this normalize_ascii]
    show "length (normalize (normalize x)) < length (normalize x)" .
  qed
  have same: "normalize (normalize x) = normalize x" if free: "\<not> sublist (py ''> >'') (normalize x)"
  proof (rule normalize_fixed)
    show "\<forall>c\<in>set (normalize x). c < 128" by (rule normalize_ascii)
    show "tidy (normalize x)" by (rule normalize_tidy)
    show "\<not> sublist [62, 62] (normalize x)" by (rule normalize_no_quote_run)
    show "\<not> sublist [62, 32, 62] (normalize x)" using free by (simp add: py_marks)
    show "\<not> sublist [45, 45, 45] (normalize x)" by (rule normalize_no_dashes)
    show "\<not> sublist [95, 95, 95] (normalize x)" by (rule normalize_no_underscores)
    show "no_match m_url (normalize x)" by (rule normalize_no_url)
  qed
  have "normalize (normalize x) = normalize x \<longleftrightarrow> \<not> sublist (py ''> >'') (normalize x)"
  proof
    assume eq: "normalize (normalize x) = normalize x"
    show "\<not> sublist (py ''> >'') (normalize x)"
    proof
      assume "sublist (py ''> >'') (normalize x)"
      with shorter have "length (normalize (normalize x)) < length (normalize x)" by simp
      with eq show False by simp
    qed
  next
    assume "\<not> sublist (py ''> >'') (normalize x)"
    then show "normalize (normalize x) = normalize x" by (rule same)
  qed
  then show ?thesis using shorter by (rule conjI)
qed

theorem normalize_idempotent_witness:
  "\<not> sublist (py ''> >'') (normalize (py ''a --- b''))
   \<and> normalize (normalize (py ''a --- b'')) = normalize (py ''a --- b'')
   \<and> sublist (py ''> >'') (normalize (py ''x >---> y''))
   \<and> length (normalize (normalize (py ''x >---> y''))) < length (normalize (py ''x >---> y''))"
proof -
  have n: "normalize (py ''a --- b'') = [97, 32, 98]" by (simp add: eval_text)
  have h: "\<not> sublist (py ''> >'') (normalize (py ''a --- b''))"
    unfolding n py_marks by (simp add: sublist_Cons_right)
  have m: "normalize (py ''x >---> y'') = [120, 32, 62, 32, 62, 32, 121]" by (simp add: eval_text)
  have g: "sublist (py ''> >'') (normalize (py ''x >---> y''))"
    unfolding m py_marks by (simp add: sublist_Cons_right)
  have a: "normalize (normalize (py ''a --- b'')) = normalize (py ''a --- b'')"
    by (rule iffD2[OF conjunct1[OF normalize_idempotent] h])
  have b: "length (normalize (normalize (py ''x >---> y''))) < length (normalize (py ''x >---> y''))"
    by (rule mp[OF conjunct2[OF normalize_idempotent] g])
  show ?thesis by (rule conjI[OF h conjI[OF a conjI[OF g b]]])
qed

text \<open>
  C3 as stated fails: \<open>>--->\<close> is normalized to \<open>> >\<close>, and \<open>> >\<close> is normalized to
  the empty text.
\<close>

theorem normalize_idempotent_counterexample:
  "normalize (py ''>--->'') = py ''> >''
   \<and> normalize (normalize (py ''>--->'')) = []
   \<and> normalize (normalize (py ''>--->'')) \<noteq> normalize (py ''>--->'')"
  by (simp add: eval_text)

end
